theory Spec2Isabelle
  imports Main
begin

section \<open>Data model\<close>

text \<open>
  The store holds the tables \<open>runs\<close>, \<open>steps\<close>, \<open>stories\<close> and \<open>medic_checks\<close>, each a
  list of rows in the order of the table. A column that may be \<open>NULL\<close> is an option. The
  status columns range over the values the engine writes. The JSON columns \<open>meta\<close> of a
  run and \<open>loop_config\<close> of a step are held parsed, as records of the keys the medic
  reads; a text that does not parse is not a value of these types.

  Time is a number of milliseconds since the epoch. The store keeps \<open>updated_at\<close> as a
  text timestamp written by \<open>datetime('now')\<close>, which has a resolution of one second;
  the age tests of the checks, written with \<open>julianday\<close> in the source, are modelled
  as exact integer differences in milliseconds, and one pass of the medic reads one
  clock value \<open>now\<close>. Every \<open>updated_at\<close> of the store is taken to be in that one
  format, on which the order of the texts, which \<open>MAX\<close> follows, is the order of the
  times. Where the source reads such a stamp with \<open>new Date\<close>, which takes a stamp without
  a zone as local time, the machine is taken to run in UTC, so that the time read is
  the time written: this bears on the minutes quoted in the messages, on the settling
  test of the resume check and on the age of the last claim in the circuit breaker.
\<close>

type_synonym time = int

definition datetime_now :: "time \<Rightarrow> time" where
  "datetime_now now = now - now mod 1000"

datatype run_status = Run_running | Run_done | Run_failed

datatype step_status = Step_waiting | Step_pending | Step_running | Step_done | Step_failed

datatype story_status =
  Story_pending | Story_running | Story_verified | Story_failed | Story_skipped

datatype step_type = Single | Loop

text \<open>The two keys of a run's \<open>meta\<close> JSON object that the medic reads and writes.\<close>

record run_meta =
  medic_resume_count :: "int option"
  medic_last_resume :: "time option"

text \<open>The keys of a loop step's \<open>loop_config\<close> JSON object read by the medic.\<close>

record loop_config =
  verifyEach :: bool
  verifyStep :: "string option"

record run =
  r_id :: string
  r_workflow_id :: string
  r_task :: string
  r_status :: run_status
  r_updated_at :: time
  r_meta :: "run_meta option"

record step =
  s_id :: string
  s_run_id :: string
  s_step_index :: int
  s_step_id :: string
  s_agent_id :: string
  s_type :: step_type
  s_status :: step_status
  s_retry_count :: int
  s_abandoned_count :: "int option"
  s_updated_at :: time
  s_output :: "string option"
  s_loop_config :: "loop_config option"
  s_current_story_id :: "string option"

record story =
  st_id :: string
  st_run_id :: string
  st_story_id :: string
  st_story_index :: int
  st_title :: "string option"
  st_status :: story_status
  st_output :: "string option"
  st_abandoned_count :: "int option"
  st_updated_at :: time

record event =
  ev_ts :: time
  ev_event :: string
  ev_runId :: string
  ev_stepId :: "string option"
  ev_workflowId :: "string option"
  ev_detail :: string

record medic_check =
  mc_id :: string
  mc_checked_at :: time
  mc_issues_found :: nat
  mc_actions_taken :: nat
  mc_summary :: string
  mc_details :: string

subsection \<open>Findings\<close>

datatype MedicSeverity = Info | Warning | Critical

datatype MedicActionType =
  Reset_step | Fail_run | Resume_run | Teardown_crons | Reset_story | Recreate_crons | No_action

record MedicFinding =
  check :: string
  severity :: MedicSeverity
  message :: string
  action :: MedicActionType
  runId :: "string option"
  stepId :: "string option"
  storyId :: "string option"
  workflowId :: "string option"
  remediated :: bool

subsection \<open>Workflow specifications and cron jobs\<close>

record agent =
  a_id :: string
  a_model :: "string option"
  a_pollingModel :: "string option"
  a_timeoutSeconds :: "int option"

text \<open>An entry of \<open>agent_mapping\<close> is one agent id or an array of them.\<close>

datatype mapping_entry = One string | Many "string list"

record WorkflowSpec =
  w_id :: string
  w_agents :: "agent list"
  w_cron_interval_ms :: "int option"
  w_agent_mapping :: "(string \<times> mapping_entry) list"
  w_polling_model :: "string option"

text \<open>The argument of \<open>createAgentCronJob\<close>.\<close>

record cron_request =
  q_name :: string
  q_everyMs :: int
  q_anchorMs :: int
  q_sessionTarget :: string
  q_agentId :: "string option"
  q_message :: string
  q_model :: string
  q_timeoutSeconds :: int
  q_delivery :: "string option"
  q_enabled :: bool

record cron_job =
  j_id :: nat
  j_name :: string
  j_request :: cron_request

text \<open>
  Modelled from the spec: the cron gateway (\<open>gateway-api\<close>), an external scheduler
  with the operations create job, list jobs, delete job by id and delete jobs by name
  prefix. It is an in-memory store of the jobs created so far; while the gateway is
  unreachable every call fails and changes nothing.
\<close>

record gateway =
  g_jobs :: "cron_job list"
  g_reachable :: bool
  g_next_id :: nat

datatype 'a result = Ok 'a | Err string

definition createAgentCronJob :: "cron_request \<Rightarrow> gateway \<Rightarrow> unit result \<times> gateway" where
  "createAgentCronJob q gw =
     (if g_reachable gw
      then (Ok (),
            gw\<lparr>g_jobs := g_jobs gw @ [\<lparr>j_id = g_next_id gw, j_name = q_name q, j_request = q\<rparr>],
               g_next_id := Suc (g_next_id gw)\<rparr>)
      else (Err ''gateway unreachable'', gw))"

definition listCronJobs :: "gateway \<Rightarrow> cron_job list result" where
  "listCronJobs gw = (if g_reachable gw then Ok (g_jobs gw) else Err ''gateway unreachable'')"

definition deleteCronJob :: "nat \<Rightarrow> gateway \<Rightarrow> gateway" where
  "deleteCronJob i gw =
     (if g_reachable gw then gw\<lparr>g_jobs := filter (\<lambda>j. j_id j \<noteq> i) (g_jobs gw)\<rparr> else gw)"

definition startsWith :: "string \<Rightarrow> string \<Rightarrow> bool" where
  "startsWith s p = (take (length p) s = p)"

definition deleteAgentCronJobs :: "string \<Rightarrow> gateway \<Rightarrow> gateway" where
  "deleteAgentCronJobs p gw =
     (if g_reachable gw
      then gw\<lparr>g_jobs := filter (\<lambda>j. \<not> startsWith (j_name j) p) (g_jobs gw)\<rparr> else gw)"

definition checkCronToolAvailable :: "gateway \<Rightarrow> unit result" where
  "checkCronToolAvailable gw = (if g_reachable gw then Ok () else Err ''gateway unreachable'')"

subsection \<open>The store and the environment\<close>

record state =
  runs :: "run list"
  steps :: "step list"
  stories :: "story list"
  medic_checks :: "medic_check list"
  events :: "event list"
  gateway :: gateway

record pull_request =
  pr_number :: int
  pr_url :: string
  pr_headRefName :: string

text \<open>
  What the functions take from outside the store: the configured role timeout, the
  output of \<open>gh pr list\<close> for a repository (\<open>None\<close> when the command fails), the
  workflow specification installed under an id (\<open>None\<close> when loading it throws), the
  text of the polling prompt, the JSON text of a list of findings, and the identifier
  drawn for the audit row of a pass.
\<close>

record env =
  getMaxRoleTimeoutSeconds :: int
  gh_pr_list :: "string \<Rightarrow> pull_request list option"
  loadWorkflowSpec :: "string \<Rightarrow> WorkflowSpec option"
  buildPollingPrompt :: "string \<Rightarrow> string \<Rightarrow> string"
  stringify_findings :: "MedicFinding list \<Rightarrow> string"
  randomUUID :: string

section \<open>Strings\<close>

definition digit_char :: "nat \<Rightarrow> char" where
  "digit_char d = ''0123456789'' ! (d mod 10)"

text \<open>The decimal text of a number, as a template literal prints it.\<close>

fun decimal :: "nat \<Rightarrow> string" where
  "decimal n = (if n div 10 = 0 then [] else decimal (n div 10)) @ [digit_char n]"

declare decimal.simps [simp del]

definition number_text :: "int \<Rightarrow> string" where
  "number_text i = (if 0 \<le> i then decimal (nat i) else CHR ''-'' # decimal (nat (- i)))"

text \<open>\<open>s.slice(0, n)\<close>\<close>

definition slice0 :: "nat \<Rightarrow> string \<Rightarrow> string" where
  "slice0 n s = take n s"

text \<open>
  A value used as a condition: \<open>undefined\<close>, \<open>null\<close> and the empty string are falsy.
\<close>

definition truthy :: "string option \<Rightarrow> bool" where
  "truthy x = (case x of None \<Rightarrow> False | Some s \<Rightarrow> s \<noteq> [])"

section \<open>Cron jobs of a workflow\<close>

definition DEFAULT_EVERY_MS :: int where
  "DEFAULT_EVERY_MS = 300000"

definition DEFAULT_AGENT_TIMEOUT_SECONDS :: int where
  "DEFAULT_AGENT_TIMEOUT_SECONDS = 30 * 60"

definition DEFAULT_POLLING_MODEL :: string where
  "DEFAULT_POLLING_MODEL = ''minimax/MiniMax-M2.5''"

definition PARALLEL_AGENTS :: "string list" where
  "PARALLEL_AGENTS = [''developer'', ''verifier'']"

definition PARALLEL_COUNT :: nat where
  "PARALLEL_COUNT = 3"

definition cron_prefix :: "string \<Rightarrow> string" where
  "cron_prefix wfid = ''setfarm/'' @ wfid @ ''/''"

definition everyMs_of :: "WorkflowSpec \<Rightarrow> int" where
  "everyMs_of workflow =
     (case w_cron_interval_ms workflow of None \<Rightarrow> DEFAULT_EVERY_MS | Some ms \<Rightarrow> ms)"

definition mappedAgentId :: "WorkflowSpec \<Rightarrow> agent \<Rightarrow> string option" where
  "mappedAgentId workflow a =
     (case map_of (w_agent_mapping workflow) (a_id a) of
        None \<Rightarrow> None
      | Some (One s) \<Rightarrow> Some s
      | Some (Many l) \<Rightarrow> (case l of [] \<Rightarrow> None | x # _ \<Rightarrow> Some x))"

definition cronAgentId :: "WorkflowSpec \<Rightarrow> agent \<Rightarrow> string" where
  "cronAgentId workflow a =
     (case mappedAgentId workflow a of
        Some m \<Rightarrow> m
      | None \<Rightarrow> w_id workflow @ ''_'' @ a_id a)"

definition allAgents :: "WorkflowSpec \<Rightarrow> agent \<Rightarrow> string list" where
  "allAgents workflow a =
     (case map_of (w_agent_mapping workflow) (a_id a) of
        Some (Many l) \<Rightarrow> l
      | Some (One s) \<Rightarrow> (if s \<noteq> [] then [s] else [cronAgentId workflow a])
      | None \<Rightarrow> [cronAgentId workflow a])"

definition agent_model :: "WorkflowSpec \<Rightarrow> agent \<Rightarrow> string" where
  "agent_model workflow a =
     (case a_model a of
        Some m \<Rightarrow> m
      | None \<Rightarrow>
          (case a_pollingModel a of
             Some m \<Rightarrow> m
           | None \<Rightarrow>
               (case w_polling_model workflow of Some m \<Rightarrow> m | None \<Rightarrow> DEFAULT_POLLING_MODEL)))"

definition agent_timeout :: "agent \<Rightarrow> int" where
  "agent_timeout a =
     (case a_timeoutSeconds a of Some t \<Rightarrow> t | None \<Rightarrow> DEFAULT_AGENT_TIMEOUT_SECONDS)"

text \<open>The job of the role at position \<open>i\<close> of the workflow's agent list.\<close>

definition role_request :: "env \<Rightarrow> WorkflowSpec \<Rightarrow> nat \<Rightarrow> agent \<Rightarrow> cron_request" where
  "role_request e workflow i a =
     \<lparr>q_name = ''setfarm/'' @ w_id workflow @ ''/'' @ a_id a,
      q_everyMs = everyMs_of workflow,
      q_anchorMs = int i * 40000,
      q_sessionTarget = ''isolated'',
      q_agentId = Some (cronAgentId workflow a),
      q_message = buildPollingPrompt e (w_id workflow) (a_id a),
      q_model = agent_model workflow a,
      q_timeoutSeconds = agent_timeout a,
      q_delivery = Some ''none'',
      q_enabled = True\<rparr>"

text \<open>The job of shard \<open>n\<close> of a parallel role; the agents of the role are used in turn.\<close>

definition shard_request :: "env \<Rightarrow> WorkflowSpec \<Rightarrow> nat \<Rightarrow> agent \<Rightarrow> nat \<Rightarrow> cron_request" where
  "shard_request e workflow i a n =
     \<lparr>q_name = ''setfarm/'' @ w_id workflow @ ''/'' @ a_id a @ ''-'' @ decimal n,
      q_everyMs = everyMs_of workflow,
      q_anchorMs = int i * 40000 + int n * 40000,
      q_sessionTarget = ''isolated'',
      q_agentId =
        (if allAgents workflow a = [] then None
         else Some (allAgents workflow a ! ((n - 1) mod length (allAgents workflow a)))),
      q_message = buildPollingPrompt e (w_id workflow) (a_id a),
      q_model = agent_model workflow a,
      q_timeoutSeconds = agent_timeout a,
      q_delivery = None,
      q_enabled = True\<rparr>"

definition create_shards :: "env \<Rightarrow> WorkflowSpec \<Rightarrow> nat \<Rightarrow> agent \<Rightarrow> gateway \<Rightarrow> gateway" where
  "create_shards e workflow i a gw =
     foldl (\<lambda>g n. snd (createAgentCronJob (shard_request e workflow i a n) g)) gw
       [2 ..< Suc PARALLEL_COUNT]"

text \<open>
  The loop of \<open>setupAgentCrons\<close> from position \<open>i\<close> on. A failed creation of a role's
  first job throws; the results of the shard creations are not looked at.
\<close>

fun setupAgentCrons_from ::
  "env \<Rightarrow> WorkflowSpec \<Rightarrow> nat \<Rightarrow> agent list \<Rightarrow> gateway \<Rightarrow> (string + unit) \<times> gateway" where
  "setupAgentCrons_from e workflow i [] gw = (Inr (), gw)"
| "setupAgentCrons_from e workflow i (a # as) gw =
     (case createAgentCronJob (role_request e workflow i a) gw of
        (Err msg, gw1) \<Rightarrow>
          (Inl (''Failed to create cron job for agent \"'' @ a_id a @ ''\": '' @ msg), gw1)
      | (Ok _, gw1) \<Rightarrow>
          setupAgentCrons_from e workflow (Suc i) as
            (if a_id a \<in> set PARALLEL_AGENTS then create_shards e workflow i a gw1 else gw1))"

definition setupAgentCrons :: "env \<Rightarrow> WorkflowSpec \<Rightarrow> gateway \<Rightarrow> (string + unit) \<times> gateway" where
  "setupAgentCrons e workflow gw = setupAgentCrons_from e workflow 0 (w_agents workflow) gw"

definition removeAgentCrons :: "string \<Rightarrow> gateway \<Rightarrow> gateway" where
  "removeAgentCrons wfid gw = deleteAgentCronJobs (cron_prefix wfid) gw"

definition countActiveRuns :: "string \<Rightarrow> run list \<Rightarrow> nat" where
  "countActiveRuns wfid rs =
     length (filter (\<lambda>r. r_workflow_id r = wfid \<and> r_status r = Run_running) rs)"

definition workflowCronsExist :: "string \<Rightarrow> gateway \<Rightarrow> bool" where
  "workflowCronsExist wfid gw =
     (case listCronJobs gw of
        Err _ \<Rightarrow> False
      | Ok jobs \<Rightarrow> list_ex (\<lambda>j. startsWith (j_name j) (cron_prefix wfid)) jobs)"

definition ensureWorkflowCrons :: "env \<Rightarrow> WorkflowSpec \<Rightarrow> gateway \<Rightarrow> (string + unit) \<times> gateway" where
  "ensureWorkflowCrons e workflow gw =
     (if workflowCronsExist (w_id workflow) gw then (Inr (), gw)
      else case checkCronToolAvailable gw of
             Err msg \<Rightarrow> (Inl msg, gw)
           | Ok _ \<Rightarrow> setupAgentCrons e workflow gw)"

definition teardownWorkflowCronsIfIdle :: "string \<Rightarrow> run list \<Rightarrow> gateway \<Rightarrow> gateway" where
  "teardownWorkflowCronsIfIdle wfid rs gw =
     (if countActiveRuns wfid rs > 0 then gw
      else case listCronJobs gw of
             Err _ \<Rightarrow> gw
           | Ok jobs \<Rightarrow>
               foldl (\<lambda>g j. if \<not> startsWith (j_name j) (cron_prefix wfid) then g
                             else deleteCronJob (j_id j) g) gw jobs)"

section \<open>Medic health checks\<close>

text \<open>
  The checks read the store at the time \<open>now\<close> and return findings. A query without
  \<open>ORDER BY\<close> returns its rows in the order of the table. The messages are for
  people; the dash of the source's messages is written \<open>--\<close> here.
\<close>

definition MAX_ROLE_TIMEOUT_MS :: "env \<Rightarrow> int" where
  "MAX_ROLE_TIMEOUT_MS e = (getMaxRoleTimeoutSeconds e + 5 * 60) * 1000"

definition STALL_THRESHOLD_MS :: "env \<Rightarrow> int" where
  "STALL_THRESHOLD_MS e = MAX_ROLE_TIMEOUT_MS e * 2"

definition CLAIMED_STUCK_THRESHOLD_MS :: int where
  "CLAIMED_STUCK_THRESHOLD_MS = 10 * 60 * 1000"

definition RESUME_MAX_ATTEMPTS :: int where
  "RESUME_MAX_ATTEMPTS = 3"

definition RESUME_COOLDOWN_MS :: int where
  "RESUME_COOLDOWN_MS = 10 * 60 * 1000"

definition STORY_STUCK_THRESHOLD_MS :: int where
  "STORY_STUCK_THRESHOLD_MS = 30 * 60 * 1000"

definition CIRCUIT_BREAKER_THRESHOLD_MS :: int where
  "CIRCUIT_BREAKER_THRESHOLD_MS = 12 * 60 * 1000"

text \<open>\<open>Math.round(ms / 60000)\<close>\<close>

definition ageMin :: "int \<Rightarrow> int" where
  "ageMin ms = (ms + 30000) div 60000"

text \<open>
  The rows of \<open>x JOIN runs r ON r.id = x.run_id\<close>, for the rows \<open>x\<close> of the steps or
  of the stories.
\<close>

definition join_runs :: "('a \<Rightarrow> string) \<Rightarrow> 'a list \<Rightarrow> run list \<Rightarrow> ('a \<times> run) list" where
  "join_runs run_id_of xs rs =
     concat (map (\<lambda>x. map (\<lambda>r. (x, r)) (filter (\<lambda>r. r_id r = run_id_of x) rs)) xs)"

definition steps_join_runs :: "state \<Rightarrow> (step \<times> run) list" where
  "steps_join_runs db = join_runs s_run_id (steps db) (runs db)"

definition stories_join_runs :: "state \<Rightarrow> (story \<times> run) list" where
  "stories_join_runs db = join_runs st_run_id (stories db) (runs db)"

definition stuck_step_finding :: "time \<Rightarrow> step \<times> run \<Rightarrow> MedicFinding" where
  "stuck_step_finding now sr =
     (case sr of (s, r) \<Rightarrow>
     \<lparr>check = ''stuck_steps'',
      severity = Warning,
      message = ''Step \"'' @ s_step_id s @ ''\" in run '' @ slice0 8 (s_run_id s) @ '' (''
        @ r_workflow_id r @ '') has been running for ''
        @ number_text (ageMin (now - s_updated_at s))
        @ ''min -- likely abandoned by agent '' @ s_agent_id s,
      action = Reset_step,
      runId = Some (s_run_id s),
      stepId = Some (s_id s),
      storyId = None,
      workflowId = None,
      remediated = False\<rparr>)"

definition checkStuckSteps :: "env \<Rightarrow> time \<Rightarrow> state \<Rightarrow> MedicFinding list" where
  "checkStuckSteps e now db =
     map (stuck_step_finding now)
       (filter (\<lambda>(s, r). s_status s = Step_running \<and> r_status r = Run_running
                  \<and> now - s_updated_at s > MAX_ROLE_TIMEOUT_MS e)
          (steps_join_runs db))"

text \<open>\<open>MAX(s.updated_at)\<close> over the steps of a run, \<open>None\<close> when it has no step.\<close>

definition last_step_update :: "state \<Rightarrow> run \<Rightarrow> time option" where
  "last_step_update db r =
     (case map s_updated_at (filter (\<lambda>s. s_run_id s = r_id r) (steps db)) of
        [] \<Rightarrow> None
      | t # ts \<Rightarrow> Some (foldl max t ts))"

definition stalled_run_finding :: "time \<Rightarrow> run \<Rightarrow> time \<Rightarrow> MedicFinding" where
  "stalled_run_finding now r lastUpd =
     \<lparr>check = ''stalled_runs'',
      severity = Critical,
      message = ''Run '' @ slice0 8 (r_id r) @ '' ('' @ r_workflow_id r @ '': \"''
        @ slice0 60 (r_task r) @ ''\") has had no step progress for ''
        @ number_text (ageMin (now - lastUpd)) @ ''min'',
      action = No_action,
      runId = Some (r_id r),
      stepId = None,
      storyId = None,
      workflowId = None,
      remediated = False\<rparr>"

definition checkStalledRuns :: "env \<Rightarrow> time \<Rightarrow> state \<Rightarrow> MedicFinding list" where
  "checkStalledRuns e now db =
     concat (map (\<lambda>r.
        case last_step_update db r of
          None \<Rightarrow> []
        | Some lastUpd \<Rightarrow>
            if r_status r = Run_running \<and> now - lastUpd > STALL_THRESHOLD_MS e
            then [stalled_run_finding now r lastUpd] else [])
       (runs db))"

definition active_step :: "step \<Rightarrow> bool" where
  "active_step s = (s_status s \<in> {Step_waiting, Step_pending, Step_running})"

definition dead_run :: "state \<Rightarrow> run \<Rightarrow> bool" where
  "dead_run db r =
     (r_status r = Run_running
      \<and> \<not> list_ex (\<lambda>s. s_run_id s = r_id r \<and> active_step s) (steps db))"

definition dead_run_finding :: "state \<Rightarrow> run \<Rightarrow> MedicFinding" where
  "dead_run_finding db r =
     (let cnt = length (filter (\<lambda>s. s_run_id s = r_id r \<and> s_status s = Step_failed) (steps db));
          detail = (if cnt > 0
                    then decimal cnt @ '' failed step(s), no active steps remaining''
                    else ''All steps terminal but run still marked as running'')
      in \<lparr>check = ''dead_runs'',
          severity = Critical,
          message = ''Run '' @ slice0 8 (r_id r) @ '' ('' @ r_workflow_id r
            @ '') is a zombie -- '' @ detail,
          action = Fail_run,
          runId = Some (r_id r),
          stepId = None,
          storyId = None,
          workflowId = None,
          remediated = False\<rparr>)"

definition checkDeadRuns :: "state \<Rightarrow> MedicFinding list" where
  "checkDeadRuns db = map (dead_run_finding db) (filter (dead_run db) (runs db))"

text \<open>\<open>name.match(/^setfarm\/([^/]+)\//)\<close>: the workflow id in a job name.\<close>

definition setfarm_workflow_of :: "string \<Rightarrow> string option" where
  "setfarm_workflow_of name =
     (if startsWith name ''setfarm/''
      then (let rest = drop 8 name;
                w = takeWhile (\<lambda>c. c \<noteq> CHR ''/'') rest
            in if w \<noteq> [] \<and> startsWith (drop (length w) rest) ''/'' then Some w else None)
      else None)"

text \<open>The workflow ids of a list of jobs, each once, in the order of first occurrence.\<close>

fun add_workflow_ids :: "string list \<Rightarrow> cron_job list \<Rightarrow> string list" where
  "add_workflow_ids acc [] = acc"
| "add_workflow_ids acc (j # js) =
     (case setfarm_workflow_of (j_name j) of
        None \<Rightarrow> add_workflow_ids acc js
      | Some w \<Rightarrow> add_workflow_ids (if w \<in> set acc then acc else acc @ [w]) js)"

definition orphaned_crons_finding :: "cron_job list \<Rightarrow> string \<Rightarrow> MedicFinding" where
  "orphaned_crons_finding cronJobs wfId =
     \<lparr>check = ''orphaned_crons'',
      severity = Warning,
      message = decimal
          (length (filter (\<lambda>j. startsWith (j_name j) (''setfarm/'' @ wfId @ ''/'')) cronJobs))
        @ '' cron job(s) for workflow \"'' @ wfId
        @ ''\" still running but no active runs exist'',
      action = Teardown_crons,
      runId = None,
      stepId = None,
      storyId = None,
      workflowId = None,
      remediated = False\<rparr>"

definition checkOrphanedCrons :: "cron_job list \<Rightarrow> state \<Rightarrow> MedicFinding list" where
  "checkOrphanedCrons cronJobs db =
     map (orphaned_crons_finding cronJobs)
       (filter (\<lambda>wfId. countActiveRuns wfId (runs db) = 0) (add_workflow_ids [] cronJobs))"

definition claimed_stuck_finding :: "time \<Rightarrow> step \<times> run \<Rightarrow> MedicFinding" where
  "claimed_stuck_finding now sr =
     (case sr of (s, r) \<Rightarrow>
     \<lparr>check = ''claimed_but_stuck'',
      severity = Warning,
      message = ''Step \"'' @ s_step_id s @ ''\" in run '' @ slice0 8 (s_run_id s)
        @ '' claimed '' @ number_text (ageMin (now - s_updated_at s))
        @ ''min ago but no progress -- Phase 2 agent likely dead'',
      action = Reset_step,
      runId = Some (s_run_id s),
      stepId = Some (s_id s),
      storyId = None,
      workflowId = None,
      remediated = False\<rparr>)"

definition checkClaimedButStuck :: "env \<Rightarrow> time \<Rightarrow> state \<Rightarrow> MedicFinding list" where
  "checkClaimedButStuck e now db =
     map (claimed_stuck_finding now)
       (filter (\<lambda>(s, r). s_status s = Step_running \<and> r_status r = Run_running
                  \<and> now - s_updated_at s > CLAIMED_STUCK_THRESHOLD_MS
                  \<and> now - s_updated_at s < MAX_ROLE_TIMEOUT_MS e)
          (steps_join_runs db))"

definition open_story :: "story \<Rightarrow> bool" where
  "open_story t = (st_status t \<in> {Story_pending, Story_running})"

definition resumeCount_of :: "run \<Rightarrow> int" where
  "resumeCount_of r =
     (case r_meta r of
        None \<Rightarrow> 0
      | Some m \<Rightarrow> (case medic_resume_count m of None \<Rightarrow> 0 | Some c \<Rightarrow> c))"

definition lastResume_of :: "run \<Rightarrow> time" where
  "lastResume_of r =
     (case r_meta r of
        None \<Rightarrow> 0
      | Some m \<Rightarrow> (case medic_last_resume m of None \<Rightarrow> 0 | Some t \<Rightarrow> t))"

definition failed_with_open_stories :: "state \<Rightarrow> run \<Rightarrow> bool" where
  "failed_with_open_stories db r =
     (r_status r = Run_failed
      \<and> list_ex (\<lambda>t. st_run_id t = r_id r \<and> open_story t) (stories db))"

text \<open>The three \<open>continue\<close> tests of the loop over the failed runs.\<close>

definition resume_due :: "time \<Rightarrow> run \<Rightarrow> bool" where
  "resume_due now r =
     (\<not> resumeCount_of r \<ge> RESUME_MAX_ATTEMPTS
      \<and> now - lastResume_of r > RESUME_COOLDOWN_MS
      \<and> \<not> now - r_updated_at r < 2 * 60 * 1000)"

definition resumable_finding :: "state \<Rightarrow> run \<Rightarrow> MedicFinding" where
  "resumable_finding db r =
     \<lparr>check = ''failed_run_resumable'',
      severity = Warning,
      message = ''Run '' @ slice0 8 (r_id r) @ '' ('' @ r_workflow_id r @ '') failed with ''
        @ decimal (length (filter (\<lambda>t. st_run_id t = r_id r \<and> open_story t) (stories db)))
        @ '' stories remaining -- auto-resume '' @ number_text (resumeCount_of r + 1)
        @ ''/'' @ number_text RESUME_MAX_ATTEMPTS,
      action = Resume_run,
      runId = Some (r_id r),
      stepId = None,
      storyId = None,
      workflowId = None,
      remediated = False\<rparr>"

definition checkFailedRunsForResume :: "time \<Rightarrow> state \<Rightarrow> MedicFinding list" where
  "checkFailedRunsForResume now db =
     map (resumable_finding db)
       (filter (resume_due now) (filter (failed_with_open_stories db) (runs db)))"

definition orphaned_story_finding :: "time \<Rightarrow> story \<times> run \<Rightarrow> MedicFinding" where
  "orphaned_story_finding now tr =
     (case tr of (t, r) \<Rightarrow>
     \<lparr>check = ''orphaned_stories'',
      severity = Warning,
      message = ''Story \"'' @ st_story_id t @ ''\" (''
        @ slice0 40 (case st_title t of None \<Rightarrow> [] | Some ti \<Rightarrow> ti) @ '') in run ''
        @ slice0 8 (st_run_id t) @ '' ('' @ r_workflow_id r @ '') has been running for ''
        @ number_text (ageMin (now - st_updated_at t)) @ ''min -- session likely dead'',
      action = Reset_story,
      runId = Some (st_run_id t),
      stepId = None,
      storyId = Some (st_id t),
      workflowId = None,
      remediated = False\<rparr>)"

definition checkOrphanedStories :: "time \<Rightarrow> state \<Rightarrow> MedicFinding list" where
  "checkOrphanedStories now db =
     map (orphaned_story_finding now)
       (filter (\<lambda>(t, r). st_status t = Story_running \<and> r_status r = Run_running
                  \<and> now - st_updated_at t > STORY_STUCK_THRESHOLD_MS)
          (stories_join_runs db))"

text \<open>
  The \<open>LIKE\<close> operator of the store: \<open>%\<close> stands for any text, \<open>_\<close> for any one
  character, and letters match without regard to case.
\<close>

definition toLowerCase_char :: "char \<Rightarrow> char" where
  "toLowerCase_char c =
     (case map_of (zip ''ABCDEFGHIJKLMNOPQRSTUVWXYZ'' ''abcdefghijklmnopqrstuvwxyz'') c of
        None \<Rightarrow> c
      | Some l \<Rightarrow> l)"

definition toLowerCase :: "string \<Rightarrow> string" where
  "toLowerCase s = map toLowerCase_char s"

fun like :: "string \<Rightarrow> string \<Rightarrow> bool" where
  "like [] [] = True"
| "like [] (c # cs) = False"
| "like (p # ps) [] = (p = CHR ''%'' \<and> like ps [])"
| "like (p # ps) (c # cs) =
     (if p = CHR ''%'' then like ps (c # cs) \<or> like (p # ps) cs
      else (p = CHR ''_'' \<or> toLowerCase_char p = toLowerCase_char c) \<and> like ps cs)"

text \<open>
  The cooldown of the circuit breaker compares texts: \<open>checked_at\<close> is the ISO stamp that
  \<open>runMedicCheck\<close> writes (\<open>2026-01-31T12:00:00.000Z\<close>), and \<open>datetime('now', '-15 minutes')\<close>
  has a space where the ISO stamp has its \<open>T\<close>. The dates decide, and on equal dates the
  \<open>T\<close> is above the space: a check counts as recent when its UTC day is the day of the
  cut-off or a later one.
\<close>

definition utc_day :: "time \<Rightarrow> int" where
  "utc_day t = t div (24 * 60 * 60 * 1000)"

definition recent_recreate :: "time \<Rightarrow> state \<Rightarrow> string \<Rightarrow> bool" where
  "recent_recreate now db wfId =
     list_ex (\<lambda>m. like ''%stalled_workflow_crons%'' (mc_details m)
                \<and> like ''%\"remediated\":true%'' (mc_details m)
                \<and> like (''%'' @ wfId @ ''%'') (mc_details m)
                \<and> utc_day (mc_checked_at m) \<ge> utc_day (now - 15 * 60 * 1000))
       (medic_checks db)"

text \<open>\<open>SELECT DISTINCT\<close>: each value once, in the order of its first row.\<close>

fun select_distinct :: "'a list \<Rightarrow> 'a list" where
  "select_distinct [] = []"
| "select_distinct (x # xs) = x # select_distinct (removeAll x xs)"

text \<open>The workflow ids of the running runs, each once.\<close>

definition running_workflows :: "state \<Rightarrow> string list" where
  "running_workflows db =
     select_distinct (map r_workflow_id (filter (\<lambda>r. r_status r = Run_running) (runs db)))"

definition workflow_stories :: "state \<Rightarrow> string \<Rightarrow> story_status \<Rightarrow> story list" where
  "workflow_stories db wfId stat =
     map fst (filter (\<lambda>(t, r). r_workflow_id r = wfId \<and> r_status r = Run_running
                        \<and> st_status t = stat)
                (stories_join_runs db))"

definition stalled_crons_finding :: "string \<Rightarrow> nat \<Rightarrow> int \<Rightarrow> MedicFinding" where
  "stalled_crons_finding wfId cnt mins =
     \<lparr>check = ''stalled_workflow_crons'',
      severity = Warning,
      message = ''Workflow \"'' @ wfId @ ''\" has '' @ decimal cnt
        @ '' pending stories but ''
        @ (if mins > 0 then ''no claim in '' @ number_text mins @ ''min''
           else ''no active claims'')
        @ '' -- crons may be dead, force-recreating'',
      action = Recreate_crons,
      runId = None,
      stepId = None,
      storyId = None,
      workflowId = Some wfId,
      remediated = False\<rparr>"

definition checkStalledWorkflowCrons :: "time \<Rightarrow> state \<Rightarrow> MedicFinding list" where
  "checkStalledWorkflowCrons now db =
     concat (map (\<lambda>wfId.
        let cnt = length (workflow_stories db wfId Story_pending);
            lastClaim = (case map st_updated_at (workflow_stories db wfId Story_running) of
                           [] \<Rightarrow> None
                         | t # ts \<Rightarrow> Some (foldl max t ts));
            age = (case lastClaim of
                     Some ts \<Rightarrow> now - ts
                   | None \<Rightarrow> CIRCUIT_BREAKER_THRESHOLD_MS + 1)
        in if cnt = 0 then []
           else if age \<le> CIRCUIT_BREAKER_THRESHOLD_MS then []
           else if recent_recreate now db wfId then []
           else [stalled_crons_finding wfId cnt
                   (case lastClaim of Some _ \<Rightarrow> ageMin age | None \<Rightarrow> - 1)])
       (running_workflows db))"

definition runSyncChecks :: "env \<Rightarrow> time \<Rightarrow> state \<Rightarrow> MedicFinding list" where
  "runSyncChecks e now db =
     checkOrphanedStories now db
     @ checkClaimedButStuck e now db
     @ checkStuckSteps e now db
     @ checkStalledRuns e now db
     @ checkDeadRuns db
     @ checkFailedRunsForResume now db
     @ checkStalledWorkflowCrons now db"

section \<open>Merged pull requests\<close>

definition word_char :: "char \<Rightarrow> bool" where
  "word_char c =
     (c \<in> set ''ABCDEFGHIJKLMNOPQRSTUVWXYZabcdefghijklmnopqrstuvwxyz0123456789_'')"

text \<open>A match of \<open>https:\/\/github\.com\/[\w-]+\/[\w.-]+\<close> at the start of a text.\<close>

definition repo_url_at :: "string \<Rightarrow> string option" where
  "repo_url_at s =
     (if startsWith s ''https://github.com/''
      then (let rest = drop 19 s;
                owner = takeWhile (\<lambda>c. word_char c \<or> c = CHR ''-'') rest;
                rest2 = drop (length owner) rest;
                repo = takeWhile (\<lambda>c. word_char c \<or> c = CHR ''.'' \<or> c = CHR ''-'') (drop 1 rest2)
            in if owner \<noteq> [] \<and> startsWith rest2 ''/'' \<and> repo \<noteq> []
               then Some (''https://github.com/'' @ owner @ ''/'' @ repo) else None)
      else None)"

fun extractRepoUrl :: "string \<Rightarrow> string option" where
  "extractRepoUrl [] = None"
| "extractRepoUrl (c # cs) =
     (case repo_url_at (c # cs) of Some u \<Rightarrow> Some u | None \<Rightarrow> extractRepoUrl cs)"

text \<open>\<open>s.replace(p, r)\<close> with a text pattern: the first occurrence only.\<close>

fun replace_first :: "string \<Rightarrow> string \<Rightarrow> string \<Rightarrow> string" where
  "replace_first p r [] = (if p = [] then r else [])"
| "replace_first p r (c # cs) =
     (if startsWith (c # cs) p then r @ drop (length p) (c # cs)
      else c # replace_first p r cs)"

fun includes_str :: "string \<Rightarrow> string \<Rightarrow> bool" where
  "includes_str [] sub = (sub = [])"
| "includes_str (c # cs) sub = (startsWith (c # cs) sub \<or> includes_str cs sub)"

definition storyLower :: "string \<Rightarrow> string" where
  "storyLower storyId' =
     map (\<lambda>c. if c = CHR ''_'' then CHR ''-'' else c) (toLowerCase storyId')"

definition branch_matches :: "string \<Rightarrow> string \<Rightarrow> pull_request \<Rightarrow> bool" where
  "branch_matches story_name runPrefix pr =
     (let branch = toLowerCase (pr_headRefName pr)
      in branch = storyLower story_name
         \<or> includes_str branch (''-'' @ storyLower story_name)
         \<or> includes_str branch (''/'' @ storyLower story_name)
         \<or> startsWith branch (runPrefix @ ''-'')
         \<or> startsWith branch (toLowerCase runPrefix @ ''-''))"

definition checkMergedPR :: "env \<Rightarrow> string \<Rightarrow> string \<Rightarrow> string \<Rightarrow> string option" where
  "checkMergedPR e repoUrl story_name run_id' =
     (case gh_pr_list e (replace_first ''https://github.com/'' [] repoUrl) of
        None \<Rightarrow> None
      | Some prs \<Rightarrow>
          map_option pr_url (find (branch_matches story_name (slice0 8 run_id')) prs))"

section \<open>Remediation\<close>

text \<open>\<open>UPDATE table SET ... WHERE P\<close>: every row that satisfies \<open>P\<close> is rewritten.\<close>

definition update_where :: "('a \<Rightarrow> bool) \<Rightarrow> ('a \<Rightarrow> 'a) \<Rightarrow> 'a list \<Rightarrow> 'a list" where
  "update_where P f xs = map (\<lambda>x. if P x then f x else x) xs"

text \<open>
  \<open>ORDER BY k ASC LIMIT 1\<close>: a row with the least key, the first of them in the table.
\<close>

fun first_by :: "('a \<Rightarrow> int) \<Rightarrow> 'a list \<Rightarrow> 'a option" where
  "first_by k [] = None"
| "first_by k (x # xs) =
     (case first_by k xs of
        None \<Rightarrow> Some x
      | Some y \<Rightarrow> if k x \<le> k y then Some x else Some y)"

definition emitEvent :: "event \<Rightarrow> state \<Rightarrow> state" where
  "emitEvent ev st = st\<lparr>events := events st @ [ev]\<rparr>"

definition count_or_zero :: "int option \<Rightarrow> int" where
  "count_or_zero c = (case c of None \<Rightarrow> 0 | Some n \<Rightarrow> n)"

definition fail_run_row :: "time \<Rightarrow> run \<Rightarrow> run" where
  "fail_run_row now r = r\<lparr>r_status := Run_failed, r_updated_at := datetime_now now\<rparr>"

definition remediate_reset_step :: "time \<Rightarrow> MedicFinding \<Rightarrow> state \<Rightarrow> bool \<times> state" where
  "remediate_reset_step now f st =
     (case stepId f of
        None \<Rightarrow> (False, st)
      | Some sid \<Rightarrow>
          if sid = [] then (False, st)
          else (case find (\<lambda>s. s_id s = sid) (steps st) of
            None \<Rightarrow> (False, st)
          | Some row \<Rightarrow>
              let newCount = count_or_zero (s_abandoned_count row) + 1
              in if newCount \<ge> 5
                 then
                   (let st1 = st\<lparr>steps := update_where (\<lambda>s. s_id s = sid)
                          (\<lambda>s. s\<lparr>s_status := Step_failed,
                                  s_output := Some ''Medic: abandoned too many times'',
                                  s_abandoned_count := Some newCount,
                                  s_updated_at := datetime_now now\<rparr>) (steps st)\<rparr>
                    in case runId f of
                         None \<Rightarrow> (True, st1)
                       | Some rid \<Rightarrow>
                           if rid = [] then (True, st1)
                           else (True,
                             emitEvent
                               \<lparr>ev_ts = now, ev_event = ''run.failed'', ev_runId = rid,
                                ev_stepId = None, ev_workflowId = None,
                                ev_detail = ''Medic: step abandoned too many times''\<rparr>
                               (st1\<lparr>runs := update_where (\<lambda>r. r_id r = rid)
                                      (fail_run_row now) (runs st1)\<rparr>)))
                 else
                   (let st1 = st\<lparr>steps := update_where (\<lambda>s. s_id s = sid)
                          (\<lambda>s. s\<lparr>s_status := Step_pending,
                                  s_abandoned_count := Some newCount,
                                  s_updated_at := datetime_now now\<rparr>) (steps st)\<rparr>
                    in case runId f of
                         None \<Rightarrow> (True, st1)
                       | Some rid \<Rightarrow>
                           if rid = [] then (True, st1)
                           else (True,
                             emitEvent
                               \<lparr>ev_ts = now, ev_event = ''step.timeout'', ev_runId = rid,
                                ev_stepId = Some sid, ev_workflowId = None,
                                ev_detail = ''Medic: reset stuck step (abandon ''
                                  @ number_text newCount @ ''/5)''\<rparr> st1))))"

definition remediate_fail_run :: "time \<Rightarrow> MedicFinding \<Rightarrow> state \<Rightarrow> bool \<times> state" where
  "remediate_fail_run now f st =
     (case runId f of
        None \<Rightarrow> (False, st)
      | Some rid \<Rightarrow>
          if rid = [] then (False, st)
          else (case find (\<lambda>r. r_id r = rid) (runs st) of
            None \<Rightarrow> (False, st)
          | Some row \<Rightarrow>
              if r_status row \<noteq> Run_running then (False, st)
              else
                (let st1 = st\<lparr>runs := update_where (\<lambda>r. r_id r = rid)
                       (fail_run_row now) (runs st)\<rparr>;
                     st2 = st1\<lparr>steps := update_where (\<lambda>s. s_run_id s = rid \<and> active_step s)
                       (\<lambda>s. s\<lparr>s_status := Step_failed,
                               s_output := Some ''Medic: run marked as dead'',
                               s_updated_at := datetime_now now\<rparr>) (steps st1)\<rparr>;
                     st3 = emitEvent
                       \<lparr>ev_ts = now, ev_event = ''run.failed'', ev_runId = rid,
                        ev_stepId = None, ev_workflowId = Some (r_workflow_id row),
                        ev_detail =
                          ''Medic: zombie run -- all steps terminal but run still marked running''\<rparr>
                       st2
                 in (True, st3\<lparr>gateway :=
                       teardownWorkflowCronsIfIdle (r_workflow_id row) (runs st3) (gateway st3)\<rparr>))))"

text \<open>\<open>message.match(/workflow "([^"]+)"/)\<close>: the first quoted workflow id of a message.\<close>

definition quoted_workflow_at :: "string \<Rightarrow> string option" where
  "quoted_workflow_at s =
     (if startsWith s ''workflow \"''
      then (let rest = drop 10 s;
                w = takeWhile (\<lambda>c. c \<noteq> CHR 0x22) rest
            in if w \<noteq> [] \<and> startsWith (drop (length w) rest) ''\"'' then Some w else None)
      else None)"

fun quoted_workflow :: "string \<Rightarrow> string option" where
  "quoted_workflow [] = None"
| "quoted_workflow (c # cs) =
     (case quoted_workflow_at (c # cs) of Some w \<Rightarrow> Some w | None \<Rightarrow> quoted_workflow cs)"

definition remediate_teardown_crons :: "MedicFinding \<Rightarrow> state \<Rightarrow> bool \<times> state" where
  "remediate_teardown_crons f st =
     (case quoted_workflow (message f) of
        None \<Rightarrow> (False, st)
      | Some wfId \<Rightarrow>
          (True, st\<lparr>gateway := teardownWorkflowCronsIfIdle wfId (runs st) (gateway st)\<rparr>))"

text \<open>
  The loop step that \<open>resume_run\<close> looks at, and whether its configuration names the
  failed step as its verify step.
\<close>

definition resume_loopStep :: "state \<Rightarrow> string \<Rightarrow> step option" where
  "resume_loopStep st rid =
     find (\<lambda>s. s_run_id s = rid \<and> s_type s = Loop
               \<and> s_status s \<in> {Step_running, Step_failed}) (steps st)"

definition resume_steps :: "time \<Rightarrow> state \<Rightarrow> string \<Rightarrow> step \<Rightarrow> state" where
  "resume_steps now st rid failedStep =
     (let idle = (\<lambda>stat s. s\<lparr>s_status := stat, s_current_story_id := None,
                             s_retry_count := 0, s_updated_at := datetime_now now\<rparr>);
          pending_story = (\<lambda>t. t\<lparr>st_status := Story_pending, st_updated_at := datetime_now now\<rparr>)
      in case (case resume_loopStep st rid of
                 None \<Rightarrow> None
               | Some l \<Rightarrow> map_option (\<lambda>lc. (l, lc)) (s_loop_config l)) of
           Some (loopStep, lc) \<Rightarrow>
             if verifyEach lc \<and> verifyStep lc = Some (s_step_id failedStep)
             then
               (let st1 = st\<lparr>steps := update_where (\<lambda>s. s_id s = s_id loopStep)
                                 (idle Step_pending) (steps st)\<rparr>;
                    st2 = st1\<lparr>steps := update_where (\<lambda>s. s_id s = s_id failedStep)
                                 (idle Step_waiting) (steps st1)\<rparr>
                in st2\<lparr>stories := update_where
                                 (\<lambda>t. st_run_id t = rid \<and> st_status t = Story_failed)
                                 pending_story (stories st2)\<rparr>)
             else st
         | None \<Rightarrow>
             (let st1 =
                (if s_type failedStep = Loop
                 then
                   (let st0 =
                      (case first_by st_story_index
                              (filter (\<lambda>t. st_run_id t = rid \<and> st_status t = Story_failed)
                                 (stories st)) of
                         None \<Rightarrow> st
                       | Some failedStory \<Rightarrow>
                           st\<lparr>stories := update_where (\<lambda>t. st_id t = st_id failedStory)
                                 pending_story (stories st)\<rparr>)
                    in st0\<lparr>steps := update_where (\<lambda>s. s_run_id s = rid \<and> s_type s = Loop)
                                 (\<lambda>s. s\<lparr>s_retry_count := 0\<rparr>) (steps st0)\<rparr>)
                 else st)
              in st1\<lparr>steps := update_where (\<lambda>s. s_id s = s_id failedStep)
                                 (idle Step_pending) (steps st1)\<rparr>))"

definition remediate_resume_run :: "env \<Rightarrow> time \<Rightarrow> MedicFinding \<Rightarrow> state \<Rightarrow> bool \<times> state" where
  "remediate_resume_run e now f st =
     (case runId f of
        None \<Rightarrow> (False, st)
      | Some rid \<Rightarrow>
          if rid = [] then (False, st)
          else (case find (\<lambda>r. r_id r = rid \<and> r_status r = Run_failed) (runs st) of
            None \<Rightarrow> (False, st)
          | Some row \<Rightarrow>
              (case first_by s_step_index
                      (filter (\<lambda>s. s_run_id s = rid \<and> s_status s = Step_failed) (steps st)) of
                 None \<Rightarrow> (False, st)
               | Some failedStep \<Rightarrow>
                   (let st1 = resume_steps now st rid failedStep;
                        st2 = st1\<lparr>runs := update_where (\<lambda>r. r_id r = rid)
                          (\<lambda>r. r\<lparr>r_status := Run_running, r_updated_at := datetime_now now\<rparr>)
                          (runs st1)\<rparr>;
                        meta = \<lparr>medic_resume_count = Some (resumeCount_of row + 1),
                                medic_last_resume = Some now\<rparr>;
                        st3 = st2\<lparr>runs := update_where (\<lambda>r. r_id r = rid)
                          (\<lambda>r. r\<lparr>r_meta := Some meta\<rparr>) (runs st2)\<rparr>;
                        st4 = (case loadWorkflowSpec e (r_workflow_id row) of
                                 None \<Rightarrow> st3
                               | Some workflow \<Rightarrow>
                                   st3\<lparr>gateway := snd (ensureWorkflowCrons e workflow (gateway st3))\<rparr>)
                    in (True, emitEvent
                         \<lparr>ev_ts = now, ev_event = ''run.resumed'', ev_runId = rid,
                          ev_stepId = None, ev_workflowId = Some (r_workflow_id row),
                          ev_detail = ''Medic: auto-resumed (attempt ''
                            @ number_text (resumeCount_of row + 1) @ ''/3)''\<rparr> st4)))))"

text \<open>
  The pull-request guard of \<open>reset_story\<close>: the address of a merged pull request for
  the story, when the run's task names a repository and one is found there.
\<close>

definition merged_pr_of :: "env \<Rightarrow> state \<Rightarrow> string \<Rightarrow> story \<Rightarrow> (string \<times> string) option" where
  "merged_pr_of e st sid row =
     (case (find (\<lambda>t. st_id t = sid) (stories st),
            find (\<lambda>r. r_id r = st_run_id row) (runs st)) of
        (Some storyMeta, Some runMeta) \<Rightarrow>
          (case extractRepoUrl (r_task runMeta) of
             None \<Rightarrow> None
           | Some repoUrl \<Rightarrow>
               (case checkMergedPR e repoUrl (st_story_id storyMeta) (st_run_id row) of
                  None \<Rightarrow> None
                | Some prUrl \<Rightarrow>
                    if prUrl = [] then None else Some (prUrl, st_story_id storyMeta)))
      | _ \<Rightarrow> None)"

definition clear_current_story :: "time \<Rightarrow> string \<Rightarrow> string \<Rightarrow> step list \<Rightarrow> step list" where
  "clear_current_story now rid sid ss =
     update_where (\<lambda>s. s_run_id s = rid \<and> s_type s = Loop \<and> s_current_story_id s = Some sid)
       (\<lambda>s. s\<lparr>s_current_story_id := None, s_updated_at := datetime_now now\<rparr>) ss"

definition MAX_STORY_ABANDONS :: int where
  "MAX_STORY_ABANDONS = 5"

definition remediate_reset_story :: "env \<Rightarrow> time \<Rightarrow> MedicFinding \<Rightarrow> state \<Rightarrow> bool \<times> state" where
  "remediate_reset_story e now f st =
     (case storyId f of
        None \<Rightarrow> (False, st)
      | Some sid \<Rightarrow>
          if sid = [] then (False, st)
          else (case find (\<lambda>t. st_id t = sid \<and> st_status t = Story_running) (stories st) of
            None \<Rightarrow> (False, st)
          | Some row \<Rightarrow>
              (case merged_pr_of e st sid row of
                 Some (prUrl, story_name) \<Rightarrow>
                   (let st1 = st\<lparr>stories := update_where (\<lambda>t. st_id t = sid)
                          (\<lambda>t. t\<lparr>st_status := Story_verified,
                                  st_abandoned_count := Some 0,
                                  st_output := Some (''STATUS: done'' @ [CHR 0x0A] @ ''PR_URL: ''
                                    @ prUrl @ [CHR 0x0A]
                                    @ ''CHANGES: Auto-verified by Medic v6 -- merged PR detected on GitHub''),
                                  st_updated_at := datetime_now now\<rparr>) (stories st)\<rparr>;
                        st2 = st1\<lparr>steps := clear_current_story now (st_run_id row) sid (steps st1)\<rparr>
                    in (True, emitEvent
                         \<lparr>ev_ts = now, ev_event = ''story.done'', ev_runId = st_run_id row,
                          ev_stepId = None, ev_workflowId = None,
                          ev_detail = ''Medic v6: auto-verified '' @ story_name
                            @ '' -- merged PR: '' @ prUrl\<rparr> st2))
               | None \<Rightarrow>
                   (let newCount = count_or_zero (st_abandoned_count row) + 1
                    in if newCount \<ge> MAX_STORY_ABANDONS
                       then
                         (let st1 = st\<lparr>stories := update_where (\<lambda>t. st_id t = sid)
                                (\<lambda>t. t\<lparr>st_status := Story_skipped,
                                        st_abandoned_count := Some newCount,
                                        st_output := Some ''Medic: abandoned too many times'',
                                        st_updated_at := datetime_now now\<rparr>) (stories st)\<rparr>
                          in (True, emitEvent
                               \<lparr>ev_ts = now, ev_event = ''story.failed'', ev_runId = st_run_id row,
                                ev_stepId = None, ev_workflowId = None,
                                ev_detail = ''Medic: story abandoned '' @ number_text newCount
                                  @ '' times -- skipped''\<rparr> st1))
                       else
                         (let st1 = st\<lparr>stories := update_where (\<lambda>t. st_id t = sid)
                                (\<lambda>t. t\<lparr>st_status := Story_pending,
                                        st_abandoned_count := Some newCount,
                                        st_updated_at := datetime_now now\<rparr>) (stories st)\<rparr>;
                              st2 = st1\<lparr>steps :=
                                clear_current_story now (st_run_id row) sid (steps st1)\<rparr>
                          in (True, emitEvent
                               \<lparr>ev_ts = now, ev_event = ''step.timeout'', ev_runId = st_run_id row,
                                ev_stepId = None, ev_workflowId = None,
                                ev_detail = ''Medic: orphaned story reset to pending (abandon ''
                                  @ number_text newCount @ ''/''
                                  @ number_text MAX_STORY_ABANDONS @ '')''\<rparr> st2))))))"

definition remediate_recreate_crons :: "env \<Rightarrow> time \<Rightarrow> MedicFinding \<Rightarrow> state \<Rightarrow> bool \<times> state" where
  "remediate_recreate_crons e now f st =
     (case (case workflowId f of Some w \<Rightarrow> Some w | None \<Rightarrow> quoted_workflow (message f)) of
        None \<Rightarrow> (False, st)
      | Some wfId \<Rightarrow>
          if wfId = [] then (False, st)
          else
            (let st1 = st\<lparr>gateway := removeAgentCrons wfId (gateway st)\<rparr>
             in case loadWorkflowSpec e wfId of
                  None \<Rightarrow> (False, st1)
                | Some workflow \<Rightarrow>
                    (case setupAgentCrons e workflow (gateway st1) of
                       (Inl _, gw) \<Rightarrow> (False, st1\<lparr>gateway := gw\<rparr>)
                     | (Inr _, gw) \<Rightarrow>
                         (True, emitEvent
                            \<lparr>ev_ts = now, ev_event = ''run.resumed'',
                             ev_runId = (case runId f of None \<Rightarrow> [] | Some r \<Rightarrow> r),
                             ev_stepId = None, ev_workflowId = Some wfId,
                             ev_detail = ''Medic: circuit breaker -- force-recreated crons for \"''
                               @ wfId @ ''\"''\<rparr>
                            (st1\<lparr>gateway := gw\<rparr>)))))"

text \<open>Attempt to remediate a finding; the flag tells whether an action was taken.\<close>

definition remediate :: "env \<Rightarrow> time \<Rightarrow> MedicFinding \<Rightarrow> state \<Rightarrow> bool \<times> state" where
  "remediate e now f st =
     (case action f of
        Reset_step \<Rightarrow> remediate_reset_step now f st
      | Fail_run \<Rightarrow> remediate_fail_run now f st
      | Teardown_crons \<Rightarrow> remediate_teardown_crons f st
      | Resume_run \<Rightarrow> remediate_resume_run e now f st
      | Reset_story \<Rightarrow> remediate_reset_story e now f st
      | Recreate_crons \<Rightarrow> remediate_recreate_crons e now f st
      | No_action \<Rightarrow> (False, st))"

section \<open>The medic pass\<close>

record MedicCheckResult =
  res_id :: string
  res_checkedAt :: time
  res_issuesFound :: nat
  res_actionsTaken :: nat
  res_summary :: string
  res_findings :: "MedicFinding list"

text \<open>
  Restore the cron jobs of every workflow that has a running run; a workflow whose
  specification cannot be loaded, or whose jobs cannot be created, is passed over.
\<close>

definition restoreActiveRunCrons :: "env \<Rightarrow> state \<Rightarrow> nat \<times> state" where
  "restoreActiveRunCrons e st =
     foldl (\<lambda>(restored, s) wfId.
        case loadWorkflowSpec e wfId of
          None \<Rightarrow> (restored, s)
        | Some workflow \<Rightarrow>
            (case ensureWorkflowCrons e workflow (gateway s) of
               (Inl _, gw) \<Rightarrow> (restored, s\<lparr>gateway := gw\<rparr>)
             | (Inr _, gw) \<Rightarrow> (Suc restored, s\<lparr>gateway := gw\<rparr>)))
       (0, st) (running_workflows st)"

text \<open>The findings of a pass: the checks of the store, then the check of the cron jobs.\<close>

definition gather_findings :: "env \<Rightarrow> time \<Rightarrow> state \<Rightarrow> MedicFinding list" where
  "gather_findings e now st =
     runSyncChecks e now st
     @ (case listCronJobs (gateway st) of
          Err _ \<Rightarrow> []
        | Ok jobs \<Rightarrow>
            checkOrphanedCrons (filter (\<lambda>j. startsWith (j_name j) ''setfarm/'') jobs) st)"

text \<open>
  The remediation loop: the findings are taken in order, each on the store left by the
  ones before it; a finding whose action is \<open>none\<close> is not remediated.
\<close>

fun remediate_all ::
  "env \<Rightarrow> time \<Rightarrow> MedicFinding list \<Rightarrow> state \<Rightarrow> MedicFinding list \<times> nat \<times> state" where
  "remediate_all e now [] st = ([], 0, st)"
| "remediate_all e now (f # fs) st =
     (if action f \<noteq> No_action
      then (case remediate e now f st of
              (success, st1) \<Rightarrow>
                (case remediate_all e now fs st1 of
                   (fs', actionsTaken, st2) \<Rightarrow>
                     if success then (f\<lparr>remediated := True\<rparr> # fs', Suc actionsTaken, st2)
                     else (f # fs', actionsTaken, st2)))
      else (case remediate_all e now fs st of
              (fs', actionsTaken, st2) \<Rightarrow> (f # fs', actionsTaken, st2)))"

fun join_comma :: "string list \<Rightarrow> string" where
  "join_comma [] = []"
| "join_comma [x] = x"
| "join_comma (x # y # ys) = x @ '', '' @ join_comma (y # ys)"

definition build_summary :: "MedicFinding list \<Rightarrow> nat \<Rightarrow> string" where
  "build_summary findings actionsTaken =
     join_comma
       (if findings = [] then [''All clear -- no issues found'']
        else (let critical = length (filter (\<lambda>f. severity f = Critical) findings);
                  warnings = length (filter (\<lambda>f. severity f = Warning) findings)
              in (if critical > 0 then [decimal critical @ '' critical''] else [])
                 @ (if warnings > 0 then [decimal warnings @ '' warning(s)''] else [])
                 @ (if actionsTaken > 0 then [decimal actionsTaken @ '' auto-fixed'']
                    else [])))"

text \<open>Keep the 500 most recent audit rows.\<close>

definition prune_checks :: "medic_check list \<Rightarrow> medic_check list" where
  "prune_checks rows =
     (let keep = map mc_id (take 500 (rev (sort_key mc_checked_at rows)))
      in filter (\<lambda>m. mc_id m \<in> set keep) rows)"

definition runMedicCheck :: "env \<Rightarrow> time \<Rightarrow> state \<Rightarrow> MedicCheckResult \<times> state" where
  "runMedicCheck e now st =
     (let st1 = snd (restoreActiveRunCrons e st);
          findings = gather_findings e now st1
      in case remediate_all e now findings st1 of
           (findings', actionsTaken, st2) \<Rightarrow>
             (let summary = build_summary findings' actionsTaken;
                  row = \<lparr>mc_id = randomUUID e, mc_checked_at = now,
                         mc_issues_found = length findings', mc_actions_taken = actionsTaken,
                         mc_summary = summary, mc_details = stringify_findings e findings'\<rparr>
              in (\<lparr>res_id = randomUUID e, res_checkedAt = now,
                   res_issuesFound = length findings', res_actionsTaken = actionsTaken,
                   res_summary = summary, res_findings = findings'\<rparr>,
                  st2\<lparr>medic_checks := prune_checks (medic_checks st2 @ [row])\<rparr>)))"

section \<open>Notions used in the statements\<close>

text \<open>The store after one finding of the remediation loop.\<close>

definition apply_finding :: "env \<Rightarrow> time \<Rightarrow> state \<Rightarrow> MedicFinding \<Rightarrow> state" where
  "apply_finding e now st f = (if action f \<noteq> No_action then snd (remediate e now f st) else st)"

text \<open>
  The remediations rewrite rows in place: the tables keep their length, and the rows
  their ids, run ids, step types, tasks and story names.
\<close>

definition same_keys :: "state \<Rightarrow> state \<Rightarrow> bool" where
  "same_keys st st' =
     (map s_id (steps st') = map s_id (steps st)
      \<and> map s_run_id (steps st') = map s_run_id (steps st)
      \<and> map r_id (runs st') = map r_id (runs st)
      \<and> map st_id (stories st') = map st_id (stories st)
      \<and> map st_run_id (stories st') = map st_run_id (stories st)
      \<and> map s_type (steps st') = map s_type (steps st)
      \<and> map r_task (runs st') = map r_task (runs st)
      \<and> map st_story_id (stories st') = map st_story_id (stories st))"

text \<open>A step without the two columns that the reset of a story may rewrite.\<close>

definition step_core :: "step \<Rightarrow> step" where
  "step_core s = s\<lparr>s_current_story_id := None, s_updated_at := 0\<rparr>"

text \<open>
  An orphaned story after its remediation: verified when the pull-request guard finds a
  merged pull request, skipped from the fifth abandonment on, pending otherwise.
\<close>

definition story_after :: "env \<Rightarrow> time \<Rightarrow> state \<Rightarrow> story \<Rightarrow> story" where
  "story_after e now st t =
     (case merged_pr_of e st (st_id t) t of
        Some (prUrl, story_name) \<Rightarrow>
          t\<lparr>st_status := Story_verified, st_abandoned_count := Some 0,
             st_output := Some (''STATUS: done'' @ [CHR 0x0A] @ ''PR_URL: '' @ prUrl @ [CHR 0x0A]
               @ ''CHANGES: Auto-verified by Medic v6 -- merged PR detected on GitHub''),
             st_updated_at := datetime_now now\<rparr>
      | None \<Rightarrow>
          if count_or_zero (st_abandoned_count t) + 1 \<ge> 5
          then t\<lparr>st_status := Story_skipped,
                 st_abandoned_count := Some (count_or_zero (st_abandoned_count t) + 1),
                 st_output := Some ''Medic: abandoned too many times'',
                 st_updated_at := datetime_now now\<rparr>
          else t\<lparr>st_status := Story_pending,
                 st_abandoned_count := Some (count_or_zero (st_abandoned_count t) + 1),
                 st_updated_at := datetime_now now\<rparr>)"

text \<open>The name, the interval and the anchor of a cron job.\<close>

definition job_plan :: "cron_job \<Rightarrow> string \<times> int \<times> int" where
  "job_plan j = (j_name j, q_everyMs (j_request j), q_anchorMs (j_request j))"

text \<open>
  The schedule as the specification words it: five minutes unless the workflow says
  otherwise; one job per role, named \<open>setfarm/<workflow>/<role>\<close>, and for the roles
  developer and verifier two more, named with the suffixes \<open>-2\<close> and \<open>-3\<close>; every anchor
  a multiple of 40 seconds.
\<close>

definition spec_interval :: "WorkflowSpec \<Rightarrow> int" where
  "spec_interval w = (case w_cron_interval_ms w of None \<Rightarrow> 5 * 60 * 1000 | Some ms \<Rightarrow> ms)"

definition role_plan :: "WorkflowSpec \<Rightarrow> nat \<times> agent \<Rightarrow> (string \<times> int \<times> int) list" where
  "role_plan w ia =
     (case ia of (i, a) \<Rightarrow>
       (''setfarm/'' @ w_id w @ ''/'' @ a_id a, spec_interval w, 40000 * int i)
       # (if a_id a = ''developer'' \<or> a_id a = ''verifier''
          then [(''setfarm/'' @ w_id w @ ''/'' @ a_id a @ ''-2'', spec_interval w, 40000 * (int i + 2)),
                (''setfarm/'' @ w_id w @ ''/'' @ a_id a @ ''-3'', spec_interval w, 40000 * (int i + 3))]
          else []))"

subsection \<open>Concrete stores\<close>

text \<open>
  Small stores on which the statements are tried: a run with a stuck step, the same step
  after four abandonments, a run whose only step is done, a failed run with an open story
  and two resumes behind it, the same run with three resumes behind it, a run on a
  GitHub repository with an orphaned story and a merged pull request for it, and two
  failed runs with a loop step: one whose loop step failed beside a loop step that is
  done, one whose verify step failed while the loop step is running.
\<close>

definition gw0 :: gateway where
  "gw0 = \<lparr>g_jobs = [], g_reachable = True, g_next_id = 0\<rparr>"

definition w0 :: WorkflowSpec where
  "w0 = \<lparr>w_id = ''wf'',
          w_agents = [\<lparr>a_id = ''planner'', a_model = None, a_pollingModel = None,
                       a_timeoutSeconds = None\<rparr>,
                      \<lparr>a_id = ''developer'', a_model = None, a_pollingModel = None,
                       a_timeoutSeconds = None\<rparr>],
          w_cron_interval_ms = None, w_agent_mapping = [], w_polling_model = None\<rparr>"

definition e0 :: env where
  "e0 = \<lparr>getMaxRoleTimeoutSeconds = 1800, gh_pr_list = (\<lambda>_. None),
          loadWorkflowSpec = (\<lambda>_. None), buildPollingPrompt = (\<lambda>_ _. ''poll''),
          stringify_findings = (\<lambda>_. ''[]''), randomUUID = ''check-1''\<rparr>"

definition q0 :: "string \<Rightarrow> cron_request" where
  "q0 name = \<lparr>q_name = name, q_everyMs = 300000, q_anchorMs = 0, q_sessionTarget = ''isolated'',
              q_agentId = None, q_message = ''poll'', q_model = ''m'', q_timeoutSeconds = 1800,
              q_delivery = None, q_enabled = True\<rparr>"

definition gw1 :: gateway where
  "gw1 = \<lparr>g_jobs = [\<lparr>j_id = 0, j_name = ''setfarm/wf/planner'', j_request = q0 ''setfarm/wf/planner''\<rparr>,
                     \<lparr>j_id = 1, j_name = ''setfarm/other/planner'',
                      j_request = q0 ''setfarm/other/planner''\<rparr>],
           g_reachable = True, g_next_id = 2\<rparr>"

definition run0 :: run where
  "run0 = \<lparr>r_id = ''run-1'', r_workflow_id = ''wf'', r_task = ''build it'',
            r_status = Run_running, r_updated_at = 0, r_meta = None\<rparr>"

definition step0 :: step where
  "step0 = \<lparr>s_id = ''step-1'', s_run_id = ''run-1'', s_step_index = 0, s_step_id = ''plan'',
             s_agent_id = ''wf_planner'', s_type = Single, s_status = Step_running,
             s_retry_count = 2, s_abandoned_count = Some 0, s_updated_at = 0, s_output = None,
             s_loop_config = None, s_current_story_id = None\<rparr>"

definition db_stuck :: state where
  "db_stuck = \<lparr>runs = [run0], steps = [step0], stories = [], medic_checks = [], events = [],
                gateway = gw0\<rparr>"

definition now0 :: time where
  "now0 = 10000000"

definition step4 :: step where
  "step4 = step0\<lparr>s_abandoned_count := Some 4\<rparr>"

definition db_stuck4 :: state where
  "db_stuck4 = db_stuck\<lparr>steps := [step4]\<rparr>"

definition step_done :: step where
  "step_done = step0\<lparr>s_status := Step_done\<rparr>"

definition db_dead :: state where
  "db_dead = db_stuck\<lparr>steps := [step_done]\<rparr>"

definition run_failed2 :: run where
  "run_failed2 = run0\<lparr>r_status := Run_failed,
     r_meta := Some \<lparr>medic_resume_count = Some 2, medic_last_resume = Some 0\<rparr>\<rparr>"

definition step_failed :: step where
  "step_failed = step0\<lparr>s_status := Step_failed\<rparr>"

definition story0 :: story where
  "story0 = \<lparr>st_id = ''story-1'', st_run_id = ''run-1'', st_story_id = ''US_001'',
              st_story_index = 0, st_title = Some ''First story'', st_status = Story_pending,
              st_output = None, st_abandoned_count = Some 3, st_updated_at = 0\<rparr>"

definition db_failed :: state where
  "db_failed = db_stuck\<lparr>runs := [run_failed2], steps := [step_failed], stories := [story0]\<rparr>"

definition run_failed3 :: run where
  "run_failed3 = run0\<lparr>r_status := Run_failed,
     r_meta := Some \<lparr>medic_resume_count = Some 3, medic_last_resume = Some 0\<rparr>\<rparr>"

definition db_failed3 :: state where
  "db_failed3 = db_failed\<lparr>runs := [run_failed3]\<rparr>"

definition run_repo :: run where
  "run_repo = run0\<lparr>r_task := ''Add login to https://github.com/acme/app please''\<rparr>"

definition story_running :: story where
  "story_running = story0\<lparr>st_status := Story_running\<rparr>"

definition loop_step :: step where
  "loop_step = step0\<lparr>s_type := Loop, s_status := Step_pending,
     s_current_story_id := Some ''story-1''\<rparr>"

definition db_pr :: state where
  "db_pr = db_stuck\<lparr>runs := [run_repo], steps := [loop_step], stories := [story_running]\<rparr>"

definition pr7 :: pull_request where
  "pr7 = \<lparr>pr_number = 7, pr_url = ''https://github.com/acme/app/pull/7'',
           pr_headRefName = ''feature/US-001-login''\<rparr>"

definition e_pr :: env where
  "e_pr = e0\<lparr>gh_pr_list := (\<lambda>repo. if repo = ''acme/app'' then Some [pr7] else None)\<rparr>"








section \<open>Cron jobs: creation and teardown\<close>

lemma startsWith_append [simp]: "startsWith (p @ s) p"
  by (simp add: startsWith_def)

lemma shard_range: "[2 ..< Suc PARALLEL_COUNT] = [2, 3]"
  by (simp add: PARALLEL_COUNT_def upt_rec)

lemma decimal_2: "decimal 2 = ''2''"
  by (simp add: decimal.simps digit_char_def)

lemma decimal_3: "decimal 3 = ''3''"
  by (simp add: decimal.simps digit_char_def)

lemma createAgentCronJob_reachable:
  "g_reachable gw \<Longrightarrow>
   createAgentCronJob q gw =
     (Ok (), gw\<lparr>g_jobs := g_jobs gw @ [\<lparr>j_id = g_next_id gw, j_name = q_name q, j_request = q\<rparr>],
               g_next_id := Suc (g_next_id gw)\<rparr>)"
  by (simp add: createAgentCronJob_def)

lemma createAgentCronJob_unreachable:
  "\<not> g_reachable gw \<Longrightarrow> createAgentCronJob q gw = (Err ''gateway unreachable'', gw)"
  by (simp add: createAgentCronJob_def)

lemma everyMs_of_spec: "everyMs_of w = spec_interval w"
  by (simp add: everyMs_of_def spec_interval_def DEFAULT_EVERY_MS_def split: option.splits)

lemma create_shards_reachable:
  assumes "g_reachable gw"
  shows "g_reachable (create_shards e w i a gw)"
    and "map job_plan (g_jobs (create_shards e w i a gw)) =
         map job_plan (g_jobs gw)
         @ [(''setfarm/'' @ w_id w @ ''/'' @ a_id a @ ''-2'', spec_interval w, 40000 * (int i + 2)),
            (''setfarm/'' @ w_id w @ ''/'' @ a_id a @ ''-3'', spec_interval w, 40000 * (int i + 3))]"
  using assms unfolding create_shards_def shard_range
  by (simp_all add: createAgentCronJob_reachable job_plan_def everyMs_of_spec
      shard_request_def decimal_2 decimal_3)

lemma setupAgentCrons_from_reachable:
  "g_reachable gw \<Longrightarrow>
   fst (setupAgentCrons_from e w i ags gw) = Inr ()
   \<and> g_reachable (snd (setupAgentCrons_from e w i ags gw))
   \<and> map job_plan (g_jobs (snd (setupAgentCrons_from e w i ags gw))) =
       map job_plan (g_jobs gw) @ concat (map (role_plan w) (enumerate i ags))"
proof (induction ags arbitrary: i gw)
  case Nil
  then show ?case by simp
next
  case (Cons a ags)
  define gw1 where "gw1 = gw\<lparr>g_jobs := g_jobs gw @ [\<lparr>j_id = g_next_id gw,
      j_name = q_name (role_request e w i a), j_request = role_request e w i a\<rparr>],
      g_next_id := Suc (g_next_id gw)\<rparr>"
  define gw2 where "gw2 = (if a_id a \<in> set PARALLEL_AGENTS then create_shards e w i a gw1 else gw1)"
  have r1: "g_reachable gw1" using Cons.prems by (simp add: gw1_def)
  have r2: "g_reachable gw2" using r1 create_shards_reachable(1) by (simp add: gw2_def)
  have step: "setupAgentCrons_from e w i (a # ags) gw = setupAgentCrons_from e w (Suc i) ags gw2"
    using Cons.prems by (simp add: createAgentCronJob_reachable gw1_def gw2_def)
  have plan1: "map job_plan (g_jobs gw1) =
      map job_plan (g_jobs gw) @ [(''setfarm/'' @ w_id w @ ''/'' @ a_id a, spec_interval w, 40000 * int i)]"
    by (simp add: gw1_def job_plan_def role_request_def everyMs_of_spec)
  have plan: "map job_plan (g_jobs gw2) = map job_plan (g_jobs gw) @ role_plan w (i, a)"
    using create_shards_reachable(2)[OF r1, of e w i a] plan1
    by (auto simp: role_plan_def PARALLEL_AGENTS_def gw2_def)
  show ?case
    unfolding step using Cons.IH[OF r2, of "Suc i"] plan by simp
qed

lemma setupAgentCrons_from_prefix:
  assumes "g_reachable gw" "ags \<noteq> []"
  shows "list_ex (\<lambda>j. startsWith (j_name j) (cron_prefix (w_id w)))
           (g_jobs (snd (setupAgentCrons_from e w i ags gw)))"
proof -
  obtain a rest where ags: "ags = a # rest" using assms(2) by (cases ags) auto
  have "map job_plan (g_jobs (snd (setupAgentCrons_from e w i ags gw))) =
       map job_plan (g_jobs gw) @ concat (map (role_plan w) (enumerate i ags))"
    using setupAgentCrons_from_reachable[OF assms(1)] by blast
  then have "(cron_prefix (w_id w) @ a_id a, spec_interval w, 40000 * int i)
      \<in> set (map job_plan (g_jobs (snd (setupAgentCrons_from e w i ags gw))))"
    by (simp add: ags role_plan_def cron_prefix_def)
  then obtain j where "j \<in> set (g_jobs (snd (setupAgentCrons_from e w i ags gw)))"
    and "j_name j = cron_prefix (w_id w) @ a_id a"
    by (auto simp: job_plan_def)
  then show ?thesis by (auto simp: list_ex_iff intro!: bexI[of _ j])
qed

lemma ensureWorkflowCrons_existing:
  "list_ex (\<lambda>j. startsWith (j_name j) (cron_prefix (w_id w))) (g_jobs gw) \<Longrightarrow>
   snd (ensureWorkflowCrons e w gw) = gw"
  by (simp add: ensureWorkflowCrons_def workflowCronsExist_def listCronJobs_def
      checkCronToolAvailable_def)

lemma ensureWorkflowCrons_unreachable:
  "\<not> g_reachable gw \<Longrightarrow> snd (ensureWorkflowCrons e w gw) = gw"
  by (simp add: ensureWorkflowCrons_def workflowCronsExist_def listCronJobs_def
      checkCronToolAvailable_def)

lemma ensureWorkflowCrons_fresh:
  "g_reachable gw \<Longrightarrow>
   \<not> list_ex (\<lambda>j. startsWith (j_name j) (cron_prefix (w_id w))) (g_jobs gw) \<Longrightarrow>
   ensureWorkflowCrons e w gw = setupAgentCrons e w gw"
  by (simp add: ensureWorkflowCrons_def workflowCronsExist_def listCronJobs_def
      checkCronToolAvailable_def)

lemma ensureWorkflowCrons_twice:
  "snd (ensureWorkflowCrons e w (snd (ensureWorkflowCrons e w gw))) = snd (ensureWorkflowCrons e w gw)"
proof (cases "g_reachable gw
    \<and> \<not> list_ex (\<lambda>j. startsWith (j_name j) (cron_prefix (w_id w))) (g_jobs gw)")
  case False
  then have "snd (ensureWorkflowCrons e w gw) = gw"
    using ensureWorkflowCrons_existing ensureWorkflowCrons_unreachable by blast
  then show ?thesis by simp
next
  case True
  then have eq: "ensureWorkflowCrons e w gw = setupAgentCrons e w gw"
    using ensureWorkflowCrons_fresh by blast
  show ?thesis
  proof (cases "w_agents w = []")
    case True
    then have "snd (ensureWorkflowCrons e w gw) = gw"
      by (simp add: eq setupAgentCrons_def)
    then show ?thesis by simp
  next
    case False
    then have "list_ex (\<lambda>j. startsWith (j_name j) (cron_prefix (w_id w)))
           (g_jobs (snd (ensureWorkflowCrons e w gw)))"
      using setupAgentCrons_from_prefix True by (simp add: eq setupAgentCrons_def)
    then show ?thesis by (rule ensureWorkflowCrons_existing)
  qed
qed

lemma teardown_fold:
  "g_reachable gw \<Longrightarrow>
   g_reachable (foldl (\<lambda>g j. if \<not> P j then g else deleteCronJob (j_id j) g) gw js)
   \<and> g_jobs (foldl (\<lambda>g j. if \<not> P j then g else deleteCronJob (j_id j) g) gw js) =
       filter (\<lambda>j'. j_id j' \<notin> j_id ` {j \<in> set js. P j}) (g_jobs gw)"
proof (induction js arbitrary: gw)
  case Nil
  then show ?case by simp
next
  case (Cons j js)
  show ?case
  proof (cases "P j")
    case False
    then show ?thesis using Cons.IH[OF Cons.prems] by (auto intro: filter_cong)
  next
    case True
    have r: "g_reachable (deleteCronJob (j_id j) gw)"
      using Cons.prems by (simp add: deleteCronJob_def)
    show ?thesis
      using Cons.IH[OF r] True Cons.prems
      by (auto simp: deleteCronJob_def intro: filter_cong)
  qed
qed

lemma teardown_idle:
  assumes "countActiveRuns wfId rs = 0" "g_reachable gw"
  shows "g_jobs (teardownWorkflowCronsIfIdle wfId rs gw) =
     filter (\<lambda>j'. j_id j' \<notin> j_id ` {j \<in> set (g_jobs gw). startsWith (j_name j) (cron_prefix wfId)})
       (g_jobs gw)"
  using assms teardown_fold[OF assms(2), of "\<lambda>j. startsWith (j_name j) (cron_prefix wfId)" "g_jobs gw"]
  by (simp add: teardownWorkflowCronsIfIdle_def listCronJobs_def)

lemma filter_by_distinct_key:
  "distinct (map k xs) \<Longrightarrow>
   filter (\<lambda>x. k x \<notin> k ` {y \<in> set xs. P y}) xs = filter (\<lambda>x. \<not> P x) xs"
proof -
  assume d: "distinct (map k xs)"
  have "\<And>x. x \<in> set xs \<Longrightarrow> (k x \<notin> k ` {y \<in> set xs. P y}) = (\<not> P x)"
    using d by (auto simp: distinct_map inj_on_def)
  then show ?thesis by (auto intro: filter_cong)
qed

section \<open>Remediation: what stays as it is\<close>

lemma length_update_where [simp]: "length (update_where P g xs) = length xs"
  by (simp add: update_where_def)

lemma nth_update_where:
  "i < length xs \<Longrightarrow> update_where P g xs ! i = (if P (xs ! i) then g (xs ! i) else xs ! i)"
  by (simp add: update_where_def)

lemma map_update_where_key:
  "(\<And>x. k (g x) = k x) \<Longrightarrow> map k (update_where P g xs) = map k xs"
  by (simp add: update_where_def)

lemma same_keys_refl [simp]: "same_keys st st"
  by (simp add: same_keys_def)

lemma same_keys_trans: "same_keys a b \<Longrightarrow> same_keys b c \<Longrightarrow> same_keys a c"
  by (simp add: same_keys_def)

lemma same_keys_reset_step: "same_keys st (snd (remediate_reset_step now f st))"
  by (simp add: same_keys_def remediate_reset_step_def Let_def emitEvent_def
      map_update_where_key fail_run_row_def split: option.splits)

lemma same_keys_fail_run: "same_keys st (snd (remediate_fail_run now f st))"
  by (simp add: same_keys_def remediate_fail_run_def Let_def emitEvent_def
      map_update_where_key fail_run_row_def split: option.splits)

lemma same_keys_teardown: "same_keys st (snd (remediate_teardown_crons f st))"
  by (simp add: same_keys_def remediate_teardown_crons_def split: option.splits)

lemma same_keys_resume_steps: "same_keys st (resume_steps now st rid failedStep)"
  by (simp add: same_keys_def resume_steps_def Let_def map_update_where_key
      split: option.splits prod.splits)

lemma same_keys_resume_run: "same_keys st (snd (remediate_resume_run e now f st))"
  using same_keys_resume_steps
  by (simp add: same_keys_def remediate_resume_run_def Let_def emitEvent_def
      map_update_where_key split: option.splits)

lemma same_keys_reset_story: "same_keys st (snd (remediate_reset_story e now f st))"
  by (simp add: same_keys_def remediate_reset_story_def Let_def emitEvent_def
      map_update_where_key clear_current_story_def split: option.splits prod.splits)

lemma same_keys_recreate: "same_keys st (snd (remediate_recreate_crons e now f st))"
  by (simp add: same_keys_def remediate_recreate_crons_def Let_def emitEvent_def
      split: option.splits prod.splits sum.splits)

lemma same_keys_remediate: "same_keys st (snd (remediate e now f st))"
  by (simp add: remediate_def same_keys_reset_step same_keys_fail_run same_keys_teardown
      same_keys_resume_run same_keys_reset_story same_keys_recreate split: MedicActionType.splits)

lemma distinct_key_eq:
  "distinct (map k xs) \<Longrightarrow> x \<in> set xs \<Longrightarrow> y \<in> set xs \<Longrightarrow> k x = k y \<Longrightarrow> x = y"
  by (auto simp: distinct_map inj_on_def)

lemma find_in_set: "find P xs = Some x \<Longrightarrow> x \<in> set xs \<and> P x"
  by (induction xs) (auto split: if_splits)

lemma find_by_distinct_key:
  "distinct (map k xs) \<Longrightarrow> x \<in> set xs \<Longrightarrow> find (\<lambda>y. k y = k x) xs = Some x"
  by (induction xs) auto

lemma find_by_distinct_key_and:
  "distinct (map k xs) \<Longrightarrow> x \<in> set xs \<Longrightarrow> P x \<Longrightarrow> find (\<lambda>y. k y = k x \<and> P y) xs = Some x"
  by (induction xs) auto

lemma first_by_in_set: "first_by k xs = Some x \<Longrightarrow> x \<in> set xs"
  by (induction xs arbitrary: x) (auto split: option.splits if_splits)

lemma first_by_None: "first_by k xs = None \<longleftrightarrow> xs = []"
  by (induction xs) (auto split: option.splits)

lemma resume_steps_runs [simp]: "runs (resume_steps now st rid failedStep) = runs st"
  by (simp add: resume_steps_def Let_def split: option.splits prod.splits)

lemma resume_steps_gateway [simp]: "gateway (resume_steps now st rid failedStep) = gateway st"
  by (simp add: resume_steps_def Let_def split: option.splits prod.splits)

lemma resume_loopStep_in:
  "resume_loopStep st rid = Some l \<Longrightarrow> l \<in> set (steps st) \<and> s_run_id l = rid"
  by (auto simp: resume_loopStep_def dest: find_in_set)

lemma resume_steps_row:
  assumes "i < length (steps st)" "distinct (map s_id (steps st))"
    and "failedStep \<in> set (steps st)" "s_run_id failedStep = rid"
    and "s_run_id (steps st ! i) \<noteq> rid"
  shows "steps (resume_steps now st rid failedStep) ! i = steps st ! i"
proof -
  have ne: "\<And>x. x \<in> set (steps st) \<Longrightarrow> s_run_id x = rid \<Longrightarrow> s_id (steps st ! i) \<noteq> s_id x"
    using assms(1,2,5) distinct_key_eq[of s_id "steps st"] by (metis nth_mem)
  have f: "s_id (steps st ! i) \<noteq> s_id failedStep" using ne assms(3,4) by blast
  show ?thesis
  proof (cases "resume_loopStep st rid")
    case None
    then show ?thesis
      using assms(1,5) f
      by (simp add: resume_steps_def Let_def nth_update_where split: option.splits)
  next
    case (Some l)
    then have "s_id (steps st ! i) \<noteq> s_id l" using ne resume_loopStep_in by blast
    then show ?thesis
      using assms(1,5) f Some
      by (simp add: resume_steps_def Let_def nth_update_where split: option.splits)
  qed
qed

lemma resume_steps_story_row:
  assumes "j < length (stories st)" "distinct (map st_id (stories st))"
    and "st_status (stories st ! j) \<noteq> Story_failed"
  shows "stories (resume_steps now st rid failedStep) ! j = stories st ! j"
proof -
  have ne: "\<And>x. first_by st_story_index
        (filter (\<lambda>t. st_run_id t = rid \<and> st_status t = Story_failed) (stories st)) = Some x
      \<Longrightarrow> st_id (stories st ! j) \<noteq> st_id x"
  proof
    fix x
    assume a: "first_by st_story_index
        (filter (\<lambda>t. st_run_id t = rid \<and> st_status t = Story_failed) (stories st)) = Some x"
      and b: "st_id (stories st ! j) = st_id x"
    from a have "x \<in> set (stories st)" "st_status x = Story_failed"
      using first_by_in_set by fastforce+
    then show False using assms b distinct_key_eq[of st_id "stories st" "stories st ! j" x]
      by auto
  qed
  show ?thesis
    using assms(1,3) ne
    by (simp add: resume_steps_def Let_def nth_update_where split: option.splits prod.splits)
qed

lemma teardown_keeps_tables [simp]:
  "runs (st\<lparr>gateway := g\<rparr>) = runs st" "steps (st\<lparr>gateway := g\<rparr>) = steps st"
  "stories (st\<lparr>gateway := g\<rparr>) = stories st"
  by simp_all

text \<open>Steps: what a remediation that is not aimed at a step can do to its row.\<close>

lemma step_frame_reset_step:
  assumes "i < length (steps st)" "stepId f \<noteq> Some (s_id (steps st ! i))"
  shows "steps (snd (remediate_reset_step now f st)) ! i = steps st ! i"
  using assms
  by (auto simp: remediate_reset_step_def Let_def emitEvent_def nth_update_where
      split: option.splits)

lemma step_frame_fail_run:
  assumes "i < length (steps st)" "runId f \<noteq> Some (s_run_id (steps st ! i))"
  shows "steps (snd (remediate_fail_run now f st)) ! i = steps st ! i"
  using assms
  by (auto simp: remediate_fail_run_def Let_def emitEvent_def nth_update_where
      split: option.splits)

lemma step_frame_resume_run:
  assumes "i < length (steps st)" "distinct (map s_id (steps st))"
    and "runId f \<noteq> Some (s_run_id (steps st ! i))"
  shows "steps (snd (remediate_resume_run e now f st)) ! i = steps st ! i"
proof (cases "runId f")
  case None
  then show ?thesis by (simp add: remediate_resume_run_def)
next
  case (Some rid)
  then have ne: "s_run_id (steps st ! i) \<noteq> rid" using assms(3) by auto
  have row: "\<And>x. first_by s_step_index
        (filter (\<lambda>s. s_run_id s = rid \<and> s_status s = Step_failed) (steps st)) = Some x
      \<Longrightarrow> steps (resume_steps now st rid x) ! i = steps st ! i"
  proof -
    fix x
    assume "first_by s_step_index
        (filter (\<lambda>s. s_run_id s = rid \<and> s_status s = Step_failed) (steps st)) = Some x"
    then have "x \<in> set (steps st)" "s_run_id x = rid"
      using first_by_in_set by fastforce+
    then show "steps (resume_steps now st rid x) ! i = steps st ! i"
      using resume_steps_row[OF assms(1,2) _ _ ne] by blast
  qed
  show ?thesis
    using Some row
    by (simp add: remediate_resume_run_def Let_def emitEvent_def split: option.splits)
qed

lemma recreate_crons_tables [simp]:
  "runs (snd (remediate_recreate_crons e now f st)) = runs st"
  "steps (snd (remediate_recreate_crons e now f st)) = steps st"
  "stories (snd (remediate_recreate_crons e now f st)) = stories st"
  by (simp_all add: remediate_recreate_crons_def Let_def emitEvent_def
      split: option.splits prod.splits sum.splits)

lemma teardown_crons_tables [simp]:
  "runs (snd (remediate_teardown_crons f st)) = runs st"
  "steps (snd (remediate_teardown_crons f st)) = steps st"
  "stories (snd (remediate_teardown_crons f st)) = stories st"
  by (simp_all add: remediate_teardown_crons_def split: option.splits)

lemma step_core_fields:
  assumes "step_core a = step_core b"
  shows "s_id a = s_id b" "s_run_id a = s_run_id b" "s_status a = s_status b"
    "s_abandoned_count a = s_abandoned_count b" "s_retry_count a = s_retry_count b"
    "s_type a = s_type b" "s_output a = s_output b"
proof -
  have "s_id (step_core a) = s_id (step_core b)" "s_run_id (step_core a) = s_run_id (step_core b)"
    "s_status (step_core a) = s_status (step_core b)"
    "s_abandoned_count (step_core a) = s_abandoned_count (step_core b)"
    "s_retry_count (step_core a) = s_retry_count (step_core b)"
    "s_type (step_core a) = s_type (step_core b)"
    "s_output (step_core a) = s_output (step_core b)"
    using assms by simp_all
  then show "s_id a = s_id b" "s_run_id a = s_run_id b" "s_status a = s_status b"
    "s_abandoned_count a = s_abandoned_count b" "s_retry_count a = s_retry_count b"
    "s_type a = s_type b" "s_output a = s_output b"
    by (simp_all add: step_core_def)
qed

lemma step_frame_reset_story:
  assumes "i < length (steps st)"
  shows "step_core (steps (snd (remediate_reset_story e now f st)) ! i) = step_core (steps st ! i)"
  using assms
  by (auto simp: remediate_reset_story_def Let_def emitEvent_def clear_current_story_def
      nth_update_where step_core_def split: option.splits prod.splits)

lemma step_frame:
  assumes "i < length (steps st)" "distinct (map s_id (steps st))"
    and "action f = Reset_step \<longrightarrow> stepId f \<noteq> Some (s_id (steps st ! i))"
    and "action f = Fail_run \<or> action f = Resume_run
           \<longrightarrow> runId f \<noteq> Some (s_run_id (steps st ! i))"
  shows "step_core (steps (snd (remediate e now f st)) ! i) = step_core (steps st ! i)"
proof (cases "action f")
  case Reset_step
  then show ?thesis using step_frame_reset_step[OF assms(1)] assms(3)
    by (simp add: remediate_def)
next
  case Fail_run
  then show ?thesis using step_frame_fail_run[OF assms(1)] assms(4)
    by (simp add: remediate_def)
next
  case Resume_run
  then show ?thesis using step_frame_resume_run[OF assms(1,2)] assms(4)
    by (simp add: remediate_def)
next
  case Teardown_crons
  then show ?thesis by (simp add: remediate_def)
next
  case Reset_story
  then show ?thesis using step_frame_reset_story[OF assms(1)] by (simp add: remediate_def)
next
  case Recreate_crons
  then show ?thesis by (simp add: remediate_def)
next
  case No_action
  then show ?thesis by (simp add: remediate_def)
qed

lemma in_join_runs:
  "(x, r) \<in> set (join_runs g xs rs) \<longleftrightarrow> x \<in> set xs \<and> r \<in> set rs \<and> r_id r = g x"
  by (auto simp: join_runs_def)

lemma filter_by_key_single:
  "distinct (map k xs) \<Longrightarrow> x \<in> set xs \<Longrightarrow> filter (\<lambda>y. k y = k x) xs = [x]"
proof (induction xs)
  case Nil
  then show ?case by simp
next
  case (Cons y ys)
  show ?case
  proof (cases "y = x")
    case True
    then have "k x \<notin> k ` set ys" using Cons.prems by simp
    then have "\<forall>z \<in> set ys. k z \<noteq> k x" by (metis imageI)
    then have "filter (\<lambda>z. k z = k x) ys = []" by (simp add: filter_empty_conv)
    then show ?thesis using True by simp
  next
    case False
    then have "x \<in> set ys" using Cons.prems by auto
    moreover have "k y \<noteq> k x" using Cons.prems calculation by auto
    ultimately show ?thesis using Cons by simp
  qed
qed

lemma join_runs_single:
  assumes "distinct (map k xs)" "distinct (map r_id rs)" "x \<in> set xs" "r \<in> set rs"
    and "r_id r = g x"
  shows "filter (\<lambda>p. k (fst p) = k x) (join_runs g xs rs) = [(x, r)]"
proof -
  have rs: "filter (\<lambda>r'. r_id r' = g x) rs = [r]"
    using filter_by_key_single[OF assms(2,4)] assms(5) by simp
  have "filter (\<lambda>p. k (fst p) = k x) (join_runs g xs rs) =
        concat (map (\<lambda>y. map (\<lambda>r. (y, r)) (filter (\<lambda>r. r_id r = g y) rs))
                  (filter (\<lambda>y. k y = k x) xs))"
    unfolding join_runs_def
    by (induction xs) (auto simp: filter_map comp_def)
  then show ?thesis
    using filter_by_key_single[OF assms(1,3)] rs by simp
qed

text \<open>Runs: only a remediation aimed at a run rewrites its row.\<close>

lemma reset_story_runs [simp]: "runs (snd (remediate_reset_story e now f st)) = runs st"
  by (simp add: remediate_reset_story_def Let_def emitEvent_def split: option.splits prod.splits)

lemma run_frame:
  assumes "k < length (runs st)"
    and "action f \<in> {Reset_step, Fail_run, Resume_run} \<longrightarrow> runId f \<noteq> Some (r_id (runs st ! k))"
  shows "runs (snd (remediate e now f st)) ! k = runs st ! k"
proof (cases "action f")
  case Reset_step
  then show ?thesis using assms
    by (auto simp: remediate_def remediate_reset_step_def Let_def emitEvent_def nth_update_where
        split: option.splits)
next
  case Fail_run
  then show ?thesis using assms
    by (auto simp: remediate_def remediate_fail_run_def Let_def emitEvent_def nth_update_where
        split: option.splits)
next
  case Resume_run
  then show ?thesis using assms
    by (auto simp: remediate_def remediate_resume_run_def Let_def emitEvent_def nth_update_where
        split: option.splits)
qed (simp_all add: remediate_def)

lemma run_failed_stays:
  assumes "k < length (runs st)" "r_status (runs st ! k) = Run_failed"
    and "action f = Resume_run \<longrightarrow> runId f \<noteq> Some (r_id (runs st ! k))"
  shows "r_status (runs (snd (remediate e now f st)) ! k) = Run_failed"
proof (cases "action f")
  case Reset_step
  then show ?thesis using assms
    by (auto simp: remediate_def remediate_reset_step_def Let_def emitEvent_def nth_update_where
        fail_run_row_def split: option.splits)
next
  case Fail_run
  then show ?thesis using assms
    by (auto simp: remediate_def remediate_fail_run_def Let_def emitEvent_def nth_update_where
        fail_run_row_def split: option.splits)
next
  case Resume_run
  then show ?thesis using assms
    by (auto simp: remediate_def remediate_resume_run_def Let_def emitEvent_def nth_update_where
        split: option.splits)
qed (simp_all add: remediate_def assms)

lemma run_meta_frame:
  assumes "k < length (runs st)"
    and "action f = Resume_run \<longrightarrow> runId f \<noteq> Some (r_id (runs st ! k))"
  shows "r_meta (runs (snd (remediate e now f st)) ! k) = r_meta (runs st ! k)"
proof (cases "action f")
  case Reset_step
  then show ?thesis using assms
    by (auto simp: remediate_def remediate_reset_step_def Let_def emitEvent_def nth_update_where
        fail_run_row_def split: option.splits)
next
  case Fail_run
  then show ?thesis using assms
    by (auto simp: remediate_def remediate_fail_run_def Let_def emitEvent_def nth_update_where
        fail_run_row_def split: option.splits)
next
  case Resume_run
  then show ?thesis using assms
    by (auto simp: remediate_def remediate_resume_run_def Let_def emitEvent_def nth_update_where
        split: option.splits)
qed (simp_all add: remediate_def)

text \<open>Stories: only a reset of the story, or a resume of a run with failed stories.\<close>

lemma story_frame:
  assumes "j < length (stories st)" "distinct (map st_id (stories st))"
    and "action f = Reset_story \<longrightarrow> storyId f \<noteq> Some (st_id (stories st ! j))"
    and "action f = Resume_run \<longrightarrow> st_status (stories st ! j) \<noteq> Story_failed"
  shows "stories (snd (remediate e now f st)) ! j = stories st ! j"
proof (cases "action f")
  case Reset_step
  then show ?thesis
    by (simp add: remediate_def remediate_reset_step_def Let_def emitEvent_def
        split: option.splits)
next
  case Fail_run
  then show ?thesis
    by (simp add: remediate_def remediate_fail_run_def Let_def emitEvent_def
        split: option.splits)
next
  case Resume_run
  then show ?thesis using resume_steps_story_row[OF assms(1,2)] assms(4)
    by (simp add: remediate_def remediate_resume_run_def Let_def emitEvent_def
        split: option.splits)
next
  case Reset_story
  then show ?thesis using assms(1,3)
    by (auto simp: remediate_def remediate_reset_story_def Let_def emitEvent_def nth_update_where
        split: option.splits prod.splits)
qed (simp_all add: remediate_def)

section \<open>Remediation: the row it is aimed at\<close>

text \<open>The effect of a remediation on the row it is aimed at.\<close>

lemma find_nth_by_key:
  "distinct (map k xs) \<Longrightarrow> i < length xs \<Longrightarrow> find (\<lambda>y. k y = k (xs ! i)) xs = Some (xs ! i)"
  using find_by_distinct_key[of k xs "xs ! i"] by simp

lemma reset_step_effect:
  assumes "i < length (steps st)" "distinct (map s_id (steps st))"
    and "stepId f = Some (s_id (steps st ! i))" "s_id (steps st ! i) \<noteq> []"
  shows "steps (snd (remediate_reset_step now f st)) ! i =
     (if count_or_zero (s_abandoned_count (steps st ! i)) + 1 \<ge> 5
      then (steps st ! i)\<lparr>s_status := Step_failed,
             s_output := Some ''Medic: abandoned too many times'',
             s_abandoned_count := Some (count_or_zero (s_abandoned_count (steps st ! i)) + 1),
             s_updated_at := datetime_now now\<rparr>
      else (steps st ! i)\<lparr>s_status := Step_pending,
             s_abandoned_count := Some (count_or_zero (s_abandoned_count (steps st ! i)) + 1),
             s_updated_at := datetime_now now\<rparr>)"
  using assms find_nth_by_key[OF assms(2,1)]
  by (simp add: remediate_reset_step_def Let_def emitEvent_def nth_update_where
      split: option.splits)

lemma reset_step_fails_run:
  assumes "i < length (steps st)" "distinct (map s_id (steps st))"
    and "stepId f = Some (s_id (steps st ! i))" "s_id (steps st ! i) \<noteq> []"
    and "count_or_zero (s_abandoned_count (steps st ! i)) + 1 \<ge> 5"
    and "k < length (runs st)" "runId f = Some (r_id (runs st ! k))" "r_id (runs st ! k) \<noteq> []"
  shows "r_status (runs (snd (remediate_reset_step now f st)) ! k) = Run_failed"
  using assms find_nth_by_key[OF assms(2,1)]
  by (simp add: remediate_reset_step_def Let_def emitEvent_def nth_update_where fail_run_row_def
      split: option.splits)

lemma fail_run_effect:
  assumes "k < length (runs st)" "distinct (map r_id (runs st))"
    and "runId f = Some (r_id (runs st ! k))" "r_id (runs st ! k) \<noteq> []"
    and "r_status (runs st ! k) = Run_running"
  shows "r_status (runs (snd (remediate_fail_run now f st)) ! k) = Run_failed"
  using assms find_nth_by_key[OF assms(2,1)]
  by (simp add: remediate_fail_run_def Let_def emitEvent_def nth_update_where fail_run_row_def
      split: option.splits)

lemma find_nth_by_key_and:
  "distinct (map k xs) \<Longrightarrow> i < length xs \<Longrightarrow> P (xs ! i) \<Longrightarrow>
   find (\<lambda>y. k y = k (xs ! i) \<and> P y) xs = Some (xs ! i)"
  using find_by_distinct_key_and[of k xs "xs ! i" P] by simp

lemma reset_story_effect:
  assumes "j < length (stories st)" "distinct (map st_id (stories st))"
    and "storyId f = Some (st_id (stories st ! j))" "st_id (stories st ! j) \<noteq> []"
    and "st_status (stories st ! j) = Story_running"
  shows "stories (snd (remediate_reset_story e now f st)) ! j =
     (case merged_pr_of e st (st_id (stories st ! j)) (stories st ! j) of
        Some (prUrl, story_name) \<Rightarrow>
          (stories st ! j)\<lparr>st_status := Story_verified, st_abandoned_count := Some 0,
             st_output := Some (''STATUS: done'' @ [CHR 0x0A] @ ''PR_URL: '' @ prUrl @ [CHR 0x0A]
               @ ''CHANGES: Auto-verified by Medic v6 -- merged PR detected on GitHub''),
             st_updated_at := datetime_now now\<rparr>
      | None \<Rightarrow>
          if count_or_zero (st_abandoned_count (stories st ! j)) + 1 \<ge> 5
          then (stories st ! j)\<lparr>st_status := Story_skipped,
                 st_abandoned_count := Some (count_or_zero (st_abandoned_count (stories st ! j)) + 1),
                 st_output := Some ''Medic: abandoned too many times'',
                 st_updated_at := datetime_now now\<rparr>
          else (stories st ! j)\<lparr>st_status := Story_pending,
                 st_abandoned_count := Some (count_or_zero (st_abandoned_count (stories st ! j)) + 1),
                 st_updated_at := datetime_now now\<rparr>)"
  using assms
    find_nth_by_key_and[OF assms(2,1), of "\<lambda>t. st_status t = Story_running"]
  by (simp add: remediate_reset_story_def Let_def emitEvent_def nth_update_where
      MAX_STORY_ABANDONS_def split: option.splits prod.splits)

lemma reset_story_verified_steps:
  assumes "j < length (stories st)" "distinct (map st_id (stories st))"
    and "storyId f = Some (st_id (stories st ! j))" "st_id (stories st ! j) \<noteq> []"
    and "st_status (stories st ! j) = Story_running"
    and "merged_pr_of e st (st_id (stories st ! j)) (stories st ! j) = Some p"
  shows "steps (snd (remediate_reset_story e now f st)) =
     clear_current_story now (st_run_id (stories st ! j)) (st_id (stories st ! j)) (steps st)"
  using assms
    find_nth_by_key_and[OF assms(2,1), of "\<lambda>t. st_status t = Story_running"]
  by (simp add: remediate_reset_story_def Let_def emitEvent_def
      split: option.splits prod.splits)

lemma resume_run_meta:
  assumes "k < length (runs st)" "distinct (map r_id (runs st))"
    and "runId f = Some (r_id (runs st ! k))"
  shows "runs (snd (remediate_resume_run e now f st)) ! k = runs st ! k
     \<or> (r_status (runs st ! k) = Run_failed
        \<and> resumeCount_of (runs (snd (remediate_resume_run e now f st)) ! k) =
            resumeCount_of (runs st ! k) + 1)"
proof (cases "r_status (runs st ! k) = Run_failed")
  case True
  then have "find (\<lambda>r. r_id r = r_id (runs st ! k) \<and> r_status r = Run_failed) (runs st)
      = Some (runs st ! k)"
    using find_nth_by_key_and[OF assms(2,1), of "\<lambda>r. r_status r = Run_failed"] by simp
  then show ?thesis using assms True
    by (simp add: remediate_resume_run_def Let_def emitEvent_def nth_update_where
        resumeCount_of_def split: option.splits)
next
  case False
  have "find (\<lambda>r. r_id r = r_id (runs st ! k) \<and> r_status r = Run_failed) (runs st) = None"
  proof (rule ccontr)
    assume "find (\<lambda>r. r_id r = r_id (runs st ! k) \<and> r_status r = Run_failed) (runs st) \<noteq> None"
    then obtain x where x: "find (\<lambda>r. r_id r = r_id (runs st ! k) \<and> r_status r = Run_failed) (runs st) = Some x"
      by auto
    then have "x \<in> set (runs st)" "r_id x = r_id (runs st ! k)" "r_status x = Run_failed"
      using find_in_set[OF x] by auto
    then have "x = runs st ! k"
      using distinct_key_eq[OF assms(2), of x "runs st ! k"] assms(1) by simp
    then show False using False \<open>r_status x = Run_failed\<close> by simp
  qed
  then show ?thesis using assms by (simp add: remediate_resume_run_def split: option.splits)
qed

section \<open>The remediation loop\<close>

text \<open>The remediation loop as a fold.\<close>

lemma remediate_all_state:
  "snd (snd (remediate_all e now fs st)) = foldl (apply_finding e now) st fs"
proof (induction fs arbitrary: st)
  case Nil
  then show ?case by simp
next
  case (Cons f fs)
  have "snd (snd (remediate_all e now (f # fs) st)) =
        snd (snd (remediate_all e now fs (apply_finding e now st f)))"
    by (simp add: apply_finding_def split: prod.splits)
  then show ?case using Cons.IH by simp
qed

lemma same_keys_apply: "same_keys st (apply_finding e now st f)"
  by (simp add: apply_finding_def same_keys_remediate)

lemma same_keys_fold: "same_keys st0 st \<Longrightarrow> same_keys st0 (foldl (apply_finding e now) st fs)"
proof (induction fs arbitrary: st)
  case Nil
  then show ?case by simp
next
  case (Cons f fs)
  then show ?case using same_keys_trans[OF Cons.prems same_keys_apply] by simp
qed

lemma same_keys_steps:
  assumes "same_keys st0 st"
  shows "length (steps st) = length (steps st0)"
    and "distinct (map s_id (steps st)) = distinct (map s_id (steps st0))"
    and "i < length (steps st0) \<Longrightarrow> s_id (steps st ! i) = s_id (steps st0 ! i)"
    and "i < length (steps st0) \<Longrightarrow> s_run_id (steps st ! i) = s_run_id (steps st0 ! i)"
proof -
  have a: "map s_id (steps st) = map s_id (steps st0)"
    and b: "map s_run_id (steps st) = map s_run_id (steps st0)"
    using assms by (simp_all add: same_keys_def)
  show len: "length (steps st) = length (steps st0)" using a by (rule map_eq_imp_length_eq)
  show "distinct (map s_id (steps st)) = distinct (map s_id (steps st0))" using a by simp
  show "i < length (steps st0) \<Longrightarrow> s_id (steps st ! i) = s_id (steps st0 ! i)"
    using a len by (metis nth_map)
  show "i < length (steps st0) \<Longrightarrow> s_run_id (steps st ! i) = s_run_id (steps st0 ! i)"
    using b len by (metis nth_map)
qed

lemma same_keys_runs:
  assumes "same_keys st0 st"
  shows "length (runs st) = length (runs st0)"
    and "distinct (map r_id (runs st)) = distinct (map r_id (runs st0))"
    and "k < length (runs st0) \<Longrightarrow> r_id (runs st ! k) = r_id (runs st0 ! k)"
    and "k < length (runs st0) \<Longrightarrow> r_task (runs st ! k) = r_task (runs st0 ! k)"
proof -
  have a: "map r_id (runs st) = map r_id (runs st0)"
    and b: "map r_task (runs st) = map r_task (runs st0)"
    using assms by (simp_all add: same_keys_def)
  show len: "length (runs st) = length (runs st0)" using a by (rule map_eq_imp_length_eq)
  show "distinct (map r_id (runs st)) = distinct (map r_id (runs st0))" using a by simp
  show "k < length (runs st0) \<Longrightarrow> r_id (runs st ! k) = r_id (runs st0 ! k)"
    using a len by (metis nth_map)
  show "k < length (runs st0) \<Longrightarrow> r_task (runs st ! k) = r_task (runs st0 ! k)"
    using b len by (metis nth_map)
qed

lemma same_keys_stories:
  assumes "same_keys st0 st"
  shows "length (stories st) = length (stories st0)"
    and "distinct (map st_id (stories st)) = distinct (map st_id (stories st0))"
    and "j < length (stories st0) \<Longrightarrow> st_id (stories st ! j) = st_id (stories st0 ! j)"
    and "j < length (stories st0) \<Longrightarrow> st_run_id (stories st ! j) = st_run_id (stories st0 ! j)"
proof -
  have a: "map st_id (stories st) = map st_id (stories st0)"
    and b: "map st_run_id (stories st) = map st_run_id (stories st0)"
    using assms by (simp_all add: same_keys_def)
  show len: "length (stories st) = length (stories st0)" using a by (rule map_eq_imp_length_eq)
  show "distinct (map st_id (stories st)) = distinct (map st_id (stories st0))" using a by simp
  show "j < length (stories st0) \<Longrightarrow> st_id (stories st ! j) = st_id (stories st0 ! j)"
    using a len by (metis nth_map)
  show "j < length (stories st0) \<Longrightarrow> st_run_id (stories st ! j) = st_run_id (stories st0 ! j)"
    using b len by (metis nth_map)
qed

text \<open>Findings that are not aimed at a row leave it as it is, all along the loop.\<close>

lemma fold_step_frame:
  assumes "same_keys st0 st" "distinct (map s_id (steps st0))" "i < length (steps st0)"
    and "\<forall>f \<in> set fs. (action f = Reset_step \<longrightarrow> stepId f \<noteq> Some (s_id (steps st0 ! i)))
           \<and> (action f = Fail_run \<or> action f = Resume_run
                \<longrightarrow> runId f \<noteq> Some (s_run_id (steps st0 ! i)))"
  shows "step_core (steps (foldl (apply_finding e now) st fs) ! i) = step_core (steps st ! i)"
  using assms(1,4)
proof (induction fs arbitrary: st)
  case Nil
  then show ?case by simp
next
  case (Cons f fs)
  have sk: "same_keys st0 (apply_finding e now st f)"
    using same_keys_trans[OF Cons.prems(1) same_keys_apply] .
  have len: "i < length (steps st)" using same_keys_steps(1)[OF Cons.prems(1)] assms(3) by simp
  have d: "distinct (map s_id (steps st))"
    using same_keys_steps(2)[OF Cons.prems(1)] assms(2) by simp
  have ids: "s_id (steps st ! i) = s_id (steps st0 ! i)" "s_run_id (steps st ! i) = s_run_id (steps st0 ! i)"
    using same_keys_steps(3,4)[OF Cons.prems(1) assms(3)] by simp_all
  have one: "step_core (steps (apply_finding e now st f) ! i) = step_core (steps st ! i)"
    using step_frame[OF len d, of f e now] Cons.prems(2) ids
    by (simp add: apply_finding_def)
  show ?case using Cons.IH[OF sk] Cons.prems(2) one by simp
qed

lemma fold_run_frame:
  assumes "same_keys st0 st" "k < length (runs st0)"
    and "\<forall>f \<in> set fs. action f \<in> {Reset_step, Fail_run, Resume_run}
            \<longrightarrow> runId f \<noteq> Some (r_id (runs st0 ! k))"
  shows "runs (foldl (apply_finding e now) st fs) ! k = runs st ! k"
  using assms(1,3)
proof (induction fs arbitrary: st)
  case Nil
  then show ?case by simp
next
  case (Cons f fs)
  have sk: "same_keys st0 (apply_finding e now st f)"
    using same_keys_trans[OF Cons.prems(1) same_keys_apply] .
  have len: "k < length (runs st)" using same_keys_runs(1)[OF Cons.prems(1)] assms(2) by simp
  have ids: "r_id (runs st ! k) = r_id (runs st0 ! k)"
    using same_keys_runs(3)[OF Cons.prems(1) assms(2)] .
  have one: "runs (apply_finding e now st f) ! k = runs st ! k"
    using run_frame[OF len, of f e now] Cons.prems(2) ids
    by (simp add: apply_finding_def)
  show ?case using Cons.IH[OF sk] Cons.prems(2) one by simp
qed

lemma fold_run_failed_stays:
  assumes "same_keys st0 st" "k < length (runs st0)" "r_status (runs st ! k) = Run_failed"
    and "\<forall>f \<in> set fs. action f = Resume_run \<longrightarrow> runId f \<noteq> Some (r_id (runs st0 ! k))"
  shows "r_status (runs (foldl (apply_finding e now) st fs) ! k) = Run_failed"
  using assms(1,3,4)
proof (induction fs arbitrary: st)
  case Nil
  then show ?case by simp
next
  case (Cons f fs)
  have sk: "same_keys st0 (apply_finding e now st f)"
    using same_keys_trans[OF Cons.prems(1) same_keys_apply] .
  have len: "k < length (runs st)" using same_keys_runs(1)[OF Cons.prems(1)] assms(2) by simp
  have ids: "r_id (runs st ! k) = r_id (runs st0 ! k)"
    using same_keys_runs(3)[OF Cons.prems(1) assms(2)] .
  have one: "r_status (runs (apply_finding e now st f) ! k) = Run_failed"
    using run_failed_stays[OF len Cons.prems(2), of f e now] Cons.prems(2,3) ids
    by (simp add: apply_finding_def)
  show ?case using Cons.IH[OF sk one] Cons.prems(3) by simp
qed

lemma fold_run_meta_frame:
  assumes "same_keys st0 st" "k < length (runs st0)"
    and "\<forall>f \<in> set fs. action f = Resume_run \<longrightarrow> runId f \<noteq> Some (r_id (runs st0 ! k))"
  shows "r_meta (runs (foldl (apply_finding e now) st fs) ! k) = r_meta (runs st ! k)"
  using assms(1,3)
proof (induction fs arbitrary: st)
  case Nil
  then show ?case by simp
next
  case (Cons f fs)
  have sk: "same_keys st0 (apply_finding e now st f)"
    using same_keys_trans[OF Cons.prems(1) same_keys_apply] .
  have len: "k < length (runs st)" using same_keys_runs(1)[OF Cons.prems(1)] assms(2) by simp
  have ids: "r_id (runs st ! k) = r_id (runs st0 ! k)"
    using same_keys_runs(3)[OF Cons.prems(1) assms(2)] .
  have one: "r_meta (runs (apply_finding e now st f) ! k) = r_meta (runs st ! k)"
    using run_meta_frame[OF len, of f e now] Cons.prems(2) ids
    by (simp add: apply_finding_def)
  show ?case using Cons.IH[OF sk] Cons.prems(2) one by simp
qed

lemma fold_story_frame:
  assumes "same_keys st0 st" "distinct (map st_id (stories st0))" "j < length (stories st0)"
    and "st_status (stories st ! j) \<noteq> Story_failed"
    and "\<forall>f \<in> set fs. action f = Reset_story \<longrightarrow> storyId f \<noteq> Some (st_id (stories st0 ! j))"
  shows "stories (foldl (apply_finding e now) st fs) ! j = stories st ! j"
  using assms(1,4,5)
proof (induction fs arbitrary: st)
  case Nil
  then show ?case by simp
next
  case (Cons f fs)
  have sk: "same_keys st0 (apply_finding e now st f)"
    using same_keys_trans[OF Cons.prems(1) same_keys_apply] .
  have len: "j < length (stories st)"
    using same_keys_stories(1)[OF Cons.prems(1)] assms(3) by simp
  have d: "distinct (map st_id (stories st))"
    using same_keys_stories(2)[OF Cons.prems(1)] assms(2) by simp
  have ids: "st_id (stories st ! j) = st_id (stories st0 ! j)"
    using same_keys_stories(3)[OF Cons.prems(1) assms(3)] .
  have one: "stories (apply_finding e now st f) ! j = stories st ! j"
    using story_frame[OF len d, of f e now] Cons.prems(2,3) ids
    by (simp add: apply_finding_def)
  show ?case using Cons.IH[OF sk] Cons.prems(2,3) one by simp
qed

lemma filter_single_split:
  assumes "filter H fs = [f0]"
  obtains A B where "fs = A @ f0 # B" "\<forall>a \<in> set A. \<not> H a" "\<forall>b \<in> set B. \<not> H b" "H f0"
proof -
  from assms obtain A B where "fs = A @ f0 # B" "\<forall>a \<in> set A. \<not> H a" "H f0" "[] = filter H B"
    unfolding filter_eq_Cons_iff by blast
  moreover have "\<forall>b \<in> set B. \<not> H b" using \<open>[] = filter H B\<close>
    by (metis filter_empty_conv)
  ultimately show ?thesis using that by blast
qed

text \<open>What the findings of each check carry.\<close>

lemma orphaned_story_finding_fields [simp]:
  "action (orphaned_story_finding now (t, r)) = Reset_story"
  "storyId (orphaned_story_finding now (t, r)) = Some (st_id t)"
  "runId (orphaned_story_finding now (t, r)) = Some (st_run_id t)"
  by (simp_all add: orphaned_story_finding_def)

lemma claimed_stuck_finding_fields [simp]:
  "action (claimed_stuck_finding now (s, r)) = Reset_step"
  "stepId (claimed_stuck_finding now (s, r)) = Some (s_id s)"
  "runId (claimed_stuck_finding now (s, r)) = Some (s_run_id s)"
  by (simp_all add: claimed_stuck_finding_def)

lemma stuck_step_finding_fields [simp]:
  "action (stuck_step_finding now (s, r)) = Reset_step"
  "stepId (stuck_step_finding now (s, r)) = Some (s_id s)"
  "runId (stuck_step_finding now (s, r)) = Some (s_run_id s)"
  by (simp_all add: stuck_step_finding_def)

lemma dead_run_finding_fields [simp]:
  "action (dead_run_finding db r) = Fail_run"
  "runId (dead_run_finding db r) = Some (r_id r)"
  by (simp_all add: dead_run_finding_def Let_def)

lemma resumable_finding_fields [simp]:
  "action (resumable_finding db r) = Resume_run"
  "runId (resumable_finding db r) = Some (r_id r)"
  by (simp_all add: resumable_finding_def)

lemma checkStalledRuns_action: "f \<in> set (checkStalledRuns e now db) \<Longrightarrow> action f = No_action"
  by (auto simp: checkStalledRuns_def stalled_run_finding_def split: option.splits if_splits)

lemma checkStalledWorkflowCrons_action:
  "f \<in> set (checkStalledWorkflowCrons now db) \<Longrightarrow> action f = Recreate_crons"
  by (auto simp: checkStalledWorkflowCrons_def stalled_crons_finding_def Let_def
      split: option.splits if_splits)

lemma checkOrphanedCrons_action:
  "f \<in> set (checkOrphanedCrons jobs db) \<Longrightarrow> action f = Teardown_crons"
  by (auto simp: checkOrphanedCrons_def orphaned_crons_finding_def)

lemma orphaned_crons_part_action:
  "f \<in> set (case listCronJobs gw of Err x \<Rightarrow> []
             | Ok jobs \<Rightarrow> checkOrphanedCrons (filter P jobs) db) \<Longrightarrow> action f = Teardown_crons"
  by (auto simp: checkOrphanedCrons_action split: result.splits)

lemma gather_findings_cases:
  assumes "f \<in> set (gather_findings e now st)"
  obtains
    (story) t r where "t \<in> set (stories st)" "r \<in> set (runs st)" "r_id r = st_run_id t"
      "st_status t = Story_running" "r_status r = Run_running"
      "now - st_updated_at t > STORY_STUCK_THRESHOLD_MS" "f = orphaned_story_finding now (t, r)"
  | (claimed) s r where "s \<in> set (steps st)" "r \<in> set (runs st)" "r_id r = s_run_id s"
      "s_status s = Step_running" "r_status r = Run_running"
      "now - s_updated_at s > CLAIMED_STUCK_THRESHOLD_MS"
      "now - s_updated_at s < MAX_ROLE_TIMEOUT_MS e" "f = claimed_stuck_finding now (s, r)"
  | (stuck) s r where "s \<in> set (steps st)" "r \<in> set (runs st)" "r_id r = s_run_id s"
      "s_status s = Step_running" "r_status r = Run_running"
      "now - s_updated_at s > MAX_ROLE_TIMEOUT_MS e" "f = stuck_step_finding now (s, r)"
  | (stalled) "action f = No_action"
  | (dead) r where "r \<in> set (runs st)" "dead_run st r" "f = dead_run_finding st r"
  | (resume) r where "r \<in> set (runs st)" "failed_with_open_stories st r" "resume_due now r"
      "f = resumable_finding st r"
  | (crons) "action f = Recreate_crons \<or> action f = Teardown_crons"
proof -
  from assms consider
      "f \<in> set (checkOrphanedStories now st)" | "f \<in> set (checkClaimedButStuck e now st)"
    | "f \<in> set (checkStuckSteps e now st)" | "f \<in> set (checkStalledRuns e now st)"
    | "f \<in> set (checkDeadRuns st)" | "f \<in> set (checkFailedRunsForResume now st)"
    | "f \<in> set (checkStalledWorkflowCrons now st)"
    | "f \<in> set (case listCronJobs (gateway st) of Err x \<Rightarrow> []
             | Ok jobs \<Rightarrow> checkOrphanedCrons (filter (\<lambda>j. startsWith (j_name j) ''setfarm/'') jobs) st)"
    by (auto simp: gather_findings_def runSyncChecks_def)
  then show ?thesis
  proof cases
    case 1
    then show ?thesis using story
      by (auto simp: checkOrphanedStories_def stories_join_runs_def in_join_runs)
  next
    case 2
    then show ?thesis using claimed
      by (auto simp: checkClaimedButStuck_def steps_join_runs_def in_join_runs)
  next
    case 3
    then show ?thesis using stuck
      by (auto simp: checkStuckSteps_def steps_join_runs_def in_join_runs)
  next
    case 4
    then show ?thesis using stalled checkStalledRuns_action by blast
  next
    case 5
    then show ?thesis using dead by (auto simp: checkDeadRuns_def)
  next
    case 6
    then show ?thesis using resume by (auto simp: checkFailedRunsForResume_def)
  next
    case 7
    then show ?thesis using crons checkStalledWorkflowCrons_action by blast
  next
    case 8
    then show ?thesis using crons orphaned_crons_part_action by blast
  qed
qed

text \<open>The findings of a pass, filtered.\<close>

lemma filter_gather_findings:
  "filter H (gather_findings e now st) =
     filter H (checkOrphanedStories now st) @ filter H (checkClaimedButStuck e now st)
     @ filter H (checkStuckSteps e now st) @ filter H (checkStalledRuns e now st)
     @ filter H (checkDeadRuns st) @ filter H (checkFailedRunsForResume now st)
     @ filter H (checkStalledWorkflowCrons now st)
     @ filter H (case listCronJobs (gateway st) of Err x \<Rightarrow> []
         | Ok jobs \<Rightarrow> checkOrphanedCrons (filter (\<lambda>j. startsWith (j_name j) ''setfarm/'') jobs) st)"
  by (simp add: gather_findings_def runSyncChecks_def)

lemma filter_none: "(\<And>x. x \<in> set xs \<Longrightarrow> \<not> H x) \<Longrightarrow> filter H xs = []"
  by (simp add: filter_empty_conv)

lemma checkOrphanedStories_action:
  "f \<in> set (checkOrphanedStories now st) \<Longrightarrow> action f = Reset_story"
  by (auto simp: checkOrphanedStories_def)

lemma checkClaimedButStuck_action:
  "f \<in> set (checkClaimedButStuck e now st) \<Longrightarrow> action f = Reset_step"
  by (auto simp: checkClaimedButStuck_def)

lemma checkStuckSteps_action:
  "f \<in> set (checkStuckSteps e now st) \<Longrightarrow> action f = Reset_step"
  by (auto simp: checkStuckSteps_def)

lemma checkDeadRuns_action: "f \<in> set (checkDeadRuns st) \<Longrightarrow> action f = Fail_run"
  by (auto simp: checkDeadRuns_def)

lemma checkFailedRunsForResume_action:
  "f \<in> set (checkFailedRunsForResume now st) \<Longrightarrow> action f = Resume_run"
  by (auto simp: checkFailedRunsForResume_def)

lemma restore_fold_tables:
  "runs (snd (foldl (\<lambda>(restored, s) wfId.
        case loadWorkflowSpec e wfId of
          None \<Rightarrow> (restored, s)
        | Some workflow \<Rightarrow>
            (case ensureWorkflowCrons e workflow (gateway s) of
               (Inl _, gw) \<Rightarrow> (restored, s\<lparr>gateway := gw\<rparr>)
             | (Inr _, gw) \<Rightarrow> (Suc restored, s\<lparr>gateway := gw\<rparr>))) (n, st) ws)) = runs st
   \<and> steps (snd (foldl (\<lambda>(restored, s) wfId.
        case loadWorkflowSpec e wfId of
          None \<Rightarrow> (restored, s)
        | Some workflow \<Rightarrow>
            (case ensureWorkflowCrons e workflow (gateway s) of
               (Inl _, gw) \<Rightarrow> (restored, s\<lparr>gateway := gw\<rparr>)
             | (Inr _, gw) \<Rightarrow> (Suc restored, s\<lparr>gateway := gw\<rparr>))) (n, st) ws)) = steps st
   \<and> stories (snd (foldl (\<lambda>(restored, s) wfId.
        case loadWorkflowSpec e wfId of
          None \<Rightarrow> (restored, s)
        | Some workflow \<Rightarrow>
            (case ensureWorkflowCrons e workflow (gateway s) of
               (Inl _, gw) \<Rightarrow> (restored, s\<lparr>gateway := gw\<rparr>)
             | (Inr _, gw) \<Rightarrow> (Suc restored, s\<lparr>gateway := gw\<rparr>))) (n, st) ws)) = stories st"
proof (induction ws arbitrary: n st)
  case Nil
  then show ?case by simp
next
  case (Cons w ws)
  show ?case
    by (simp add: Cons.IH split: option.splits prod.splits sum.splits)
qed

lemma restore_tables [simp]:
  "runs (snd (restoreActiveRunCrons e st)) = runs st"
  "steps (snd (restoreActiveRunCrons e st)) = steps st"
  "stories (snd (restoreActiveRunCrons e st)) = stories st"
  using restore_fold_tables[of e 0 st "running_workflows st"]
  by (simp_all add: restoreActiveRunCrons_def)

lemma runMedicCheck_tables:
  "runs (snd (runMedicCheck e now st)) =
     runs (foldl (apply_finding e now) (snd (restoreActiveRunCrons e st))
            (gather_findings e now (snd (restoreActiveRunCrons e st))))"
  "steps (snd (runMedicCheck e now st)) =
     steps (foldl (apply_finding e now) (snd (restoreActiveRunCrons e st))
            (gather_findings e now (snd (restoreActiveRunCrons e st))))"
  "stories (snd (runMedicCheck e now st)) =
     stories (foldl (apply_finding e now) (snd (restoreActiveRunCrons e st))
            (gather_findings e now (snd (restoreActiveRunCrons e st))))"
  using remediate_all_state[of e now "gather_findings e now (snd (restoreActiveRunCrons e st))"
      "snd (restoreActiveRunCrons e st)"]
  by (auto simp: runMedicCheck_def Let_def split: prod.splits)

lemma filter_by_action:
  assumes "\<And>f. H f \<Longrightarrow> action f = a" "\<And>f. f \<in> set xs \<Longrightarrow> action f = b" "a \<noteq> b"
  shows "filter H xs = []"
  using assms by (auto simp: filter_empty_conv)

lemma filter_crons_part:
  assumes "\<And>f. H f \<Longrightarrow> action f = a" "a \<noteq> Teardown_crons"
  shows "filter H (case listCronJobs gw of Err x \<Rightarrow> []
             | Ok jobs \<Rightarrow> checkOrphanedCrons (filter P jobs) db) = []"
  using assms orphaned_crons_part_action[where gw = gw and P = P and db = db]
  by (auto simp: filter_empty_conv)

lemma gather_filter_reset_step:
  assumes "\<And>f. H f \<Longrightarrow> action f = Reset_step"
  shows "filter H (gather_findings e now st) =
     filter H (checkClaimedButStuck e now st) @ filter H (checkStuckSteps e now st)"
  unfolding filter_gather_findings
  using filter_by_action[OF assms checkOrphanedStories_action]
    filter_by_action[OF assms checkStalledRuns_action]
    filter_by_action[OF assms checkDeadRuns_action]
    filter_by_action[OF assms checkFailedRunsForResume_action]
    filter_by_action[OF assms checkStalledWorkflowCrons_action]
    filter_crons_part[of H Reset_step, OF assms]
  by simp

lemma gather_filter_reset_story:
  assumes "\<And>f. H f \<Longrightarrow> action f = Reset_story"
  shows "filter H (gather_findings e now st) = filter H (checkOrphanedStories now st)"
  unfolding filter_gather_findings
  using filter_by_action[OF assms checkClaimedButStuck_action]
    filter_by_action[OF assms checkStuckSteps_action]
    filter_by_action[OF assms checkStalledRuns_action]
    filter_by_action[OF assms checkDeadRuns_action]
    filter_by_action[OF assms checkFailedRunsForResume_action]
    filter_by_action[OF assms checkStalledWorkflowCrons_action]
    filter_crons_part[of H Reset_story, OF assms]
  by simp

lemma gather_filter_fail_run:
  assumes "\<And>f. H f \<Longrightarrow> action f = Fail_run"
  shows "filter H (gather_findings e now st) = filter H (checkDeadRuns st)"
  unfolding filter_gather_findings
  using filter_by_action[OF assms checkClaimedButStuck_action]
    filter_by_action[OF assms checkStuckSteps_action]
    filter_by_action[OF assms checkStalledRuns_action]
    filter_by_action[OF assms checkOrphanedStories_action]
    filter_by_action[OF assms checkFailedRunsForResume_action]
    filter_by_action[OF assms checkStalledWorkflowCrons_action]
    filter_crons_part[of H Fail_run, OF assms]
  by simp

lemma gather_filter_resume_run:
  assumes "\<And>f. H f \<Longrightarrow> action f = Resume_run"
  shows "filter H (gather_findings e now st) = filter H (checkFailedRunsForResume now st)"
  unfolding filter_gather_findings
  using filter_by_action[OF assms checkClaimedButStuck_action]
    filter_by_action[OF assms checkStuckSteps_action]
    filter_by_action[OF assms checkStalledRuns_action]
    filter_by_action[OF assms checkOrphanedStories_action]
    filter_by_action[OF assms checkDeadRuns_action]
    filter_by_action[OF assms checkStalledWorkflowCrons_action]
    filter_crons_part[of H Resume_run, OF assms]
  by simp

text \<open>A stuck step in the findings of a pass.\<close>

lemma stuck_step_found_once:
  assumes ds: "distinct (map s_id (steps st))" and dr: "distinct (map r_id (runs st))"
    and i: "i < length (steps st)" and k: "k < length (runs st)"
    and rk: "r_id (runs st ! k) = s_run_id (steps st ! i)"
    and run: "s_status (steps st ! i) = Step_running" "r_status (runs st ! k) = Run_running"
    and age: "now - s_updated_at (steps st ! i) > MAX_ROLE_TIMEOUT_MS e"
  shows "filter (\<lambda>f. action f = Reset_step \<and> stepId f = Some (s_id (steps st ! i)))
           (gather_findings e now st) = [stuck_step_finding now (steps st ! i, runs st ! k)]"
proof -
  let ?s = "steps st ! i" and ?r = "runs st ! k"
  let ?H = "\<lambda>f. action f = Reset_step \<and> stepId f = Some (s_id ?s)"
  have sin: "?s \<in> set (steps st)" and rin: "?r \<in> set (runs st)" using i k by simp_all
  have claimed: "filter ?H (checkClaimedButStuck e now st) = []"
  proof (rule filter_none)
    fix f assume "f \<in> set (checkClaimedButStuck e now st)"
    then obtain s r where s: "s \<in> set (steps st)" "now - s_updated_at s < MAX_ROLE_TIMEOUT_MS e"
      "f = claimed_stuck_finding now (s, r)"
      by (auto simp: checkClaimedButStuck_def steps_join_runs_def in_join_runs)
    show "\<not> ?H f"
    proof
      assume "?H f"
      then have "s_id s = s_id ?s" using s(3) by simp
      then have "s = ?s" using distinct_key_eq[OF ds s(1) sin] by simp
      then show False using s(2) age by simp
    qed
  qed
  have key: "(\<lambda>p. ?H (stuck_step_finding now p)) = (\<lambda>p. s_id (fst p) = s_id ?s)"
    by (rule ext) (auto simp: split_paired_all)
  have stuck: "filter ?H (checkStuckSteps e now st) = [stuck_step_finding now (?s, ?r)]"
  proof -
    have "filter ?H (checkStuckSteps e now st) =
        map (stuck_step_finding now)
          (filter (\<lambda>(s, r). s_status s = Step_running \<and> r_status r = Run_running
                  \<and> now - s_updated_at s > MAX_ROLE_TIMEOUT_MS e)
             (filter (\<lambda>p. s_id (fst p) = s_id ?s) (join_runs s_run_id (steps st) (runs st))))"
      unfolding checkStuckSteps_def steps_join_runs_def filter_map comp_def key
      by (simp add: conj_commute)
    then show ?thesis
      using join_runs_single[of s_id "steps st" "runs st" "steps st ! i" "runs st ! k" s_run_id]
        ds dr sin rin rk run age by simp
  qed
  show ?thesis
    using gather_filter_reset_step[of ?H e now st] claimed stuck by simp
qed

lemma active_step_run_untouched:
  assumes dr: "distinct (map r_id (runs st))"
    and i: "i < length (steps st)" and k: "k < length (runs st)"
    and rk: "r_id (runs st ! k) = s_run_id (steps st ! i)"
    and run: "active_step (steps st ! i)" "r_status (runs st ! k) = Run_running"
    and f: "f \<in> set (gather_findings e now st)"
  shows "action f = Fail_run \<or> action f = Resume_run \<longrightarrow> runId f \<noteq> Some (s_run_id (steps st ! i))"
  using f
proof (cases rule: gather_findings_cases)
  case (dead r)
  have "s_run_id (steps st ! i) \<noteq> r_id r"
  proof
    assume "s_run_id (steps st ! i) = r_id r"
    then have "list_ex (\<lambda>s. s_run_id s = r_id r \<and> active_step s) (steps st)"
      using i run(1) by (auto simp: list_ex_iff intro!: bexI[of _ "steps st ! i"])
    then show False using dead(2) by (simp add: dead_run_def)
  qed
  then show ?thesis using dead(3) by auto
next
  case (resume r)
  have "s_run_id (steps st ! i) \<noteq> r_id r"
  proof
    assume "s_run_id (steps st ! i) = r_id r"
    then have "r = runs st ! k"
      using distinct_key_eq[OF dr resume(1), of "runs st ! k"] k rk by simp
    then show False using resume(2) run(2) by (simp add: failed_with_open_stories_def)
  qed
  then show ?thesis using resume(4) by auto
qed auto

lemma loop_resets_stuck_step:
  assumes ds: "distinct (map s_id (steps st))" and dr: "distinct (map r_id (runs st))"
    and i: "i < length (steps st)" and k: "k < length (runs st)"
    and rk: "r_id (runs st ! k) = s_run_id (steps st ! i)"
    and run: "s_status (steps st ! i) = Step_running" "r_status (runs st ! k) = Run_running"
    and age: "now - s_updated_at (steps st ! i) > MAX_ROLE_TIMEOUT_MS e"
    and ne: "s_id (steps st ! i) \<noteq> []" "s_run_id (steps st ! i) \<noteq> []"
  defines "c \<equiv> count_or_zero (s_abandoned_count (steps st ! i)) + 1"
    and "fin \<equiv> foldl (apply_finding e now) st (gather_findings e now st)"
  shows "s_abandoned_count (steps fin ! i) = Some c
    \<and> (c < 5 \<longrightarrow> s_status (steps fin ! i) = Step_pending)
    \<and> (c \<ge> 5 \<longrightarrow> s_status (steps fin ! i) = Step_failed
                  \<and> r_status (runs fin ! k) = Run_failed)"
proof -
  let ?s = "steps st ! i" and ?r = "runs st ! k"
  let ?H = "\<lambda>f. action f = Reset_step \<and> stepId f = Some (s_id ?s)"
  let ?f0 = "stuck_step_finding now (?s, ?r)"
  have act: "active_step ?s" using run(1) by (simp add: active_step_def)
  have N: "\<And>f. f \<in> set (gather_findings e now st) \<Longrightarrow>
      action f = Fail_run \<or> action f = Resume_run \<longrightarrow> runId f \<noteq> Some (s_run_id ?s)"
    using active_step_run_untouched[OF dr i k rk act run(2)] by blast
  obtain A B where split: "gather_findings e now st = A @ ?f0 # B"
    and A: "\<forall>a \<in> set A. \<not> ?H a" and B: "\<forall>b \<in> set B. \<not> ?H b"
    using filter_single_split[OF stuck_step_found_once[OF ds dr i k rk run age]] by metis
  have NA: "\<forall>f \<in> set A. (action f = Reset_step \<longrightarrow> stepId f \<noteq> Some (s_id ?s))
           \<and> (action f = Fail_run \<or> action f = Resume_run \<longrightarrow> runId f \<noteq> Some (s_run_id ?s))"
    using A N split by auto
  have NB: "\<forall>f \<in> set B. (action f = Reset_step \<longrightarrow> stepId f \<noteq> Some (s_id ?s))
           \<and> (action f = Fail_run \<or> action f = Resume_run \<longrightarrow> runId f \<noteq> Some (s_run_id ?s))"
    using B N split by auto
  define stA where "stA = foldl (apply_finding e now) st A"
  define stF where "stF = apply_finding e now stA ?f0"
  have fin: "fin = foldl (apply_finding e now) stF B"
    by (simp add: fin_def split stA_def stF_def)
  have skA: "same_keys st stA" unfolding stA_def by (rule same_keys_fold) simp
  have skF: "same_keys st stF"
    unfolding stF_def using same_keys_trans[OF skA same_keys_apply] .
  have coreA: "step_core (steps stA ! i) = step_core ?s"
    unfolding stA_def using fold_step_frame[OF same_keys_refl ds i NA] .
  have lenA: "i < length (steps stA)" using same_keys_steps(1)[OF skA] i by simp
  have dA: "distinct (map s_id (steps stA))" using same_keys_steps(2)[OF skA] ds by simp
  have idA: "s_id (steps stA ! i) = s_id ?s" using same_keys_steps(3)[OF skA i] .
  have cntA: "s_abandoned_count (steps stA ! i) = s_abandoned_count ?s"
    using step_core_fields(4)[OF coreA] .
  have stF_eq: "stF = snd (remediate_reset_step now ?f0 stA)"
    by (simp add: stF_def apply_finding_def remediate_def)
  have rowF: "steps stF ! i =
     (if c \<ge> 5
      then (steps stA ! i)\<lparr>s_status := Step_failed,
             s_output := Some ''Medic: abandoned too many times'',
             s_abandoned_count := Some c, s_updated_at := datetime_now now\<rparr>
      else (steps stA ! i)\<lparr>s_status := Step_pending,
             s_abandoned_count := Some c, s_updated_at := datetime_now now\<rparr>)"
    unfolding stF_eq c_def
    using reset_step_effect[OF lenA dA, of ?f0 now] idA ne(1) cntA by simp
  have coreB: "step_core (steps fin ! i) = step_core (steps stF ! i)"
    unfolding fin using fold_step_frame[OF skF ds i NB] .
  have cnt: "s_abandoned_count (steps fin ! i) = Some c"
    using step_core_fields(4)[OF coreB] rowF by simp
  have stat: "s_status (steps fin ! i) = (if c \<ge> 5 then Step_failed else Step_pending)"
    using step_core_fields(3)[OF coreB] rowF by simp
  have runF: "c \<ge> 5 \<Longrightarrow> r_status (runs fin ! k) = Run_failed"
  proof -
    assume c5: "c \<ge> 5"
    have lenk: "k < length (runs stA)" using same_keys_runs(1)[OF skA] k by simp
    have idk: "r_id (runs stA ! k) = s_run_id ?s" using same_keys_runs(3)[OF skA k] rk by simp
    have "r_status (runs stF ! k) = Run_failed"
      unfolding stF_eq
      using reset_step_fails_run[OF lenA dA _ _ _ lenk, of ?f0 now] idA ne idk cntA c5
      by (simp add: c_def)
    moreover have "\<forall>f \<in> set B. action f = Resume_run \<longrightarrow> runId f \<noteq> Some (r_id ?r)"
      using NB rk by auto
    ultimately show ?thesis
      unfolding fin using fold_run_failed_stays[OF skF k] by blast
  qed
  show ?thesis using cnt stat runF by auto
qed

section \<open>Claims about a medic pass\<close>

text \<open>
  Claim C1. Take a step that is \<open>running\<close> in a run that is \<open>running\<close>, last updated
  more than the role timeout plus five minutes ago, in a store whose step ids and run ids
  are distinct and not empty. After a medic pass its \<open>abandoned_count\<close> is one more than
  before. While that count is below 5 the step is \<open>pending\<close>; from 5 on the step is
  \<open>failed\<close> and its run is \<open>failed\<close>.
\<close>

theorem medic_pass_resets_stuck_step:
  assumes "distinct (map s_id (steps st))" and "distinct (map r_id (runs st))"
    and "i < length (steps st)" and "k < length (runs st)"
    and "r_id (runs st ! k) = s_run_id (steps st ! i)"
    and "s_status (steps st ! i) = Step_running" and "r_status (runs st ! k) = Run_running"
    and "now - s_updated_at (steps st ! i) > (getMaxRoleTimeoutSeconds e + 5 * 60) * 1000"
    and "s_id (steps st ! i) \<noteq> []" and "s_run_id (steps st ! i) \<noteq> []"
  shows "s_id (steps (snd (runMedicCheck e now st)) ! i) = s_id (steps st ! i)
    \<and> s_abandoned_count (steps (snd (runMedicCheck e now st)) ! i) =
        Some (count_or_zero (s_abandoned_count (steps st ! i)) + 1)
    \<and> (count_or_zero (s_abandoned_count (steps st ! i)) + 1 < 5
        \<longrightarrow> s_status (steps (snd (runMedicCheck e now st)) ! i) = Step_pending)
    \<and> (count_or_zero (s_abandoned_count (steps st ! i)) + 1 \<ge> 5
        \<longrightarrow> s_status (steps (snd (runMedicCheck e now st)) ! i) = Step_failed
          \<and> r_id (runs (snd (runMedicCheck e now st)) ! k) = r_id (runs st ! k)
          \<and> r_status (runs (snd (runMedicCheck e now st)) ! k) = Run_failed)"
proof -
  define st1 where "st1 = snd (restoreActiveRunCrons e st)"
  define fin where "fin = foldl (apply_finding e now) st1 (gather_findings e now st1)"
  have t: "steps st1 = steps st" "runs st1 = runs st" by (simp_all add: st1_def)
  have f: "steps (snd (runMedicCheck e now st)) = steps fin"
    "runs (snd (runMedicCheck e now st)) = runs fin"
    by (simp_all add: runMedicCheck_tables fin_def st1_def)
  have sk: "same_keys st1 fin" unfolding fin_def by (rule same_keys_fold) simp
  have ids: "s_id (steps fin ! i) = s_id (steps st ! i)" "r_id (runs fin ! k) = r_id (runs st ! k)"
    using same_keys_steps(3)[OF sk, of i] same_keys_runs(3)[OF sk, of k] assms(3,4) t by simp_all
  have "now - s_updated_at (steps st1 ! i) > MAX_ROLE_TIMEOUT_MS e"
    using assms(8) t by (simp add: MAX_ROLE_TIMEOUT_MS_def)
  then show ?thesis
    using loop_resets_stuck_step[where st = st1 and i = i and k = k and now = now and e = e] assms t ids
    unfolding f fin_def[symmetric] by simp
qed

theorem medic_pass_resets_stuck_step_witness:
  "distinct (map s_id (steps db_stuck)) \<and> distinct (map r_id (runs db_stuck))
   \<and> 0 < length (steps db_stuck) \<and> 0 < length (runs db_stuck)
   \<and> r_id (runs db_stuck ! 0) = s_run_id (steps db_stuck ! 0)
   \<and> s_status (steps db_stuck ! 0) = Step_running \<and> r_status (runs db_stuck ! 0) = Run_running
   \<and> now0 - s_updated_at (steps db_stuck ! 0) > (getMaxRoleTimeoutSeconds e0 + 5 * 60) * 1000
   \<and> s_id (steps db_stuck ! 0) \<noteq> [] \<and> s_run_id (steps db_stuck ! 0) \<noteq> []
   \<and> s_abandoned_count (steps (snd (runMedicCheck e0 now0 db_stuck)) ! 0) = Some 1
   \<and> s_status (steps (snd (runMedicCheck e0 now0 db_stuck)) ! 0) = Step_pending
   \<and> s_abandoned_count (steps (snd (runMedicCheck e0 now0 db_stuck4)) ! 0) = Some 5
   \<and> s_status (steps (snd (runMedicCheck e0 now0 db_stuck4)) ! 0) = Step_failed
   \<and> r_status (runs (snd (runMedicCheck e0 now0 db_stuck4)) ! 0) = Run_failed"
  using medic_pass_resets_stuck_step[where st = db_stuck and i = 0 and k = 0 and now = now0 and e = e0]
    medic_pass_resets_stuck_step[where st = db_stuck4 and i = 0 and k = 0 and now = now0 and e = e0]
  by (simp add: db_stuck_def db_stuck4_def step4_def step0_def run0_def now0_def e0_def
      count_or_zero_def)

text \<open>A dead run in the findings of a pass.\<close>

lemma dead_run_found_once:
  assumes dr: "distinct (map r_id (runs st))" and k: "k < length (runs st)"
    and dead: "dead_run st (runs st ! k)"
  shows "filter (\<lambda>f. action f = Fail_run \<and> runId f = Some (r_id (runs st ! k)))
           (gather_findings e now st) = [dead_run_finding st (runs st ! k)]"
proof -
  let ?r = "runs st ! k"
  let ?H = "\<lambda>f. action f = Fail_run \<and> runId f = Some (r_id ?r)"
  have rin: "?r \<in> set (runs st)" using k by simp
  have key: "(\<lambda>r. ?H (dead_run_finding st r)) = (\<lambda>r. r_id r = r_id ?r)"
    by (rule ext) simp
  have "filter ?H (checkDeadRuns st) =
      map (dead_run_finding st) (filter (dead_run st) (filter (\<lambda>r. r_id r = r_id ?r) (runs st)))"
    unfolding checkDeadRuns_def filter_map comp_def key
    by (simp add: conj_commute)
  then have "filter ?H (checkDeadRuns st) = [dead_run_finding st ?r]"
    using filter_by_key_single[OF dr rin] dead by simp
  then show ?thesis using gather_filter_fail_run[of ?H e now st] by simp
qed

lemma dead_run_untouched:
  assumes dr: "distinct (map r_id (runs st))" and k: "k < length (runs st)"
    and dead: "dead_run st (runs st ! k)"
    and f: "f \<in> set (gather_findings e now st)"
  shows "action f = Reset_step \<or> action f = Resume_run \<longrightarrow> runId f \<noteq> Some (r_id (runs st ! k))"
  using f
proof (cases rule: gather_findings_cases)
  case (claimed s r)
  have "s_run_id s \<noteq> r_id (runs st ! k)"
    using dead claimed(1,4) by (auto simp: dead_run_def list_ex_iff active_step_def)
  then show ?thesis using claimed(8) by simp
next
  case (stuck s r)
  have "s_run_id s \<noteq> r_id (runs st ! k)"
    using dead stuck(1,4) by (auto simp: dead_run_def list_ex_iff active_step_def)
  then show ?thesis using stuck(7) by simp
next
  case (resume r)
  have "r_id r \<noteq> r_id (runs st ! k)"
  proof
    assume "r_id r = r_id (runs st ! k)"
    then have "r = runs st ! k"
      using distinct_key_eq[OF dr resume(1), of "runs st ! k"] k by simp
    then show False using resume(2) dead by (simp add: failed_with_open_stories_def dead_run_def)
  qed
  then show ?thesis using resume(4) by simp
qed auto

lemma loop_fails_dead_run:
  fixes e :: env and now :: time
  assumes dr: "distinct (map r_id (runs st))" and k: "k < length (runs st)"
    and dead: "dead_run st (runs st ! k)" and ne: "r_id (runs st ! k) \<noteq> []"
  defines "fin \<equiv> foldl (apply_finding e now) st (gather_findings e now st)"
  shows "r_status (runs fin ! k) = Run_failed"
proof -
  let ?r = "runs st ! k"
  let ?H = "\<lambda>f. action f = Fail_run \<and> runId f = Some (r_id ?r)"
  let ?f0 = "dead_run_finding st ?r"
  have N: "\<And>f. f \<in> set (gather_findings e now st) \<Longrightarrow>
      action f = Reset_step \<or> action f = Resume_run \<longrightarrow> runId f \<noteq> Some (r_id ?r)"
    using dead_run_untouched[OF dr k dead] by blast
  obtain A B where split: "gather_findings e now st = A @ ?f0 # B"
    and A: "\<forall>a \<in> set A. \<not> ?H a" and B: "\<forall>b \<in> set B. \<not> ?H b"
    using filter_single_split[OF dead_run_found_once[OF dr k dead]] by metis
  have NA: "\<forall>f \<in> set A. action f \<in> {Reset_step, Fail_run, Resume_run}
      \<longrightarrow> runId f \<noteq> Some (r_id ?r)"
    using A N split by auto
  have NB: "\<forall>f \<in> set B. action f = Resume_run \<longrightarrow> runId f \<noteq> Some (r_id ?r)"
    using N split by auto
  define stA where "stA = foldl (apply_finding e now) st A"
  define stF where "stF = apply_finding e now stA ?f0"
  have fin: "fin = foldl (apply_finding e now) stF B"
    by (simp add: fin_def split stA_def stF_def)
  have skA: "same_keys st stA" unfolding stA_def by (rule same_keys_fold) simp
  have skF: "same_keys st stF"
    unfolding stF_def using same_keys_trans[OF skA same_keys_apply] .
  have rowA: "runs stA ! k = ?r"
    unfolding stA_def using fold_run_frame[OF same_keys_refl k NA] .
  have lenA: "k < length (runs stA)" using same_keys_runs(1)[OF skA] k by simp
  have dA: "distinct (map r_id (runs stA))" using same_keys_runs(2)[OF skA] dr by simp
  have "stF = snd (remediate_fail_run now ?f0 stA)"
    by (simp add: stF_def apply_finding_def remediate_def)
  then have "r_status (runs stF ! k) = Run_failed"
    using fail_run_effect[OF lenA dA, of ?f0 now] rowA ne dead by (simp add: dead_run_def)
  then show ?thesis
    unfolding fin using fold_run_failed_stays[OF skF k _ NB] by blast
qed

text \<open>
  Claim C7. Take a run that is \<open>running\<close> and has no step that is \<open>waiting\<close>,
  \<open>pending\<close> or \<open>running\<close>, in a store whose run ids are distinct and not empty.
  After a medic pass the run is \<open>failed\<close>.
\<close>

theorem medic_pass_fails_dead_run:
  assumes "distinct (map r_id (runs st))" and "k < length (runs st)"
    and "r_status (runs st ! k) = Run_running"
    and "\<forall>s \<in> set (steps st). s_run_id s = r_id (runs st ! k)
           \<longrightarrow> s_status s \<notin> {Step_waiting, Step_pending, Step_running}"
    and "r_id (runs st ! k) \<noteq> []"
  shows "r_id (runs (snd (runMedicCheck e now st)) ! k) = r_id (runs st ! k)
    \<and> r_status (runs (snd (runMedicCheck e now st)) ! k) = Run_failed"
proof -
  define st1 where "st1 = snd (restoreActiveRunCrons e st)"
  define fin where "fin = foldl (apply_finding e now) st1 (gather_findings e now st1)"
  have t: "steps st1 = steps st" "runs st1 = runs st" by (simp_all add: st1_def)
  have f: "runs (snd (runMedicCheck e now st)) = runs fin"
    by (simp_all add: runMedicCheck_tables fin_def st1_def)
  have sk: "same_keys st1 fin" unfolding fin_def by (rule same_keys_fold) simp
  have ids: "r_id (runs fin ! k) = r_id (runs st ! k)"
    using same_keys_runs(3)[OF sk, of k] assms(2) t by simp
  have dead: "dead_run st1 (runs st1 ! k)"
    using assms(3,4) t by (auto simp: dead_run_def list_ex_iff active_step_def)
  show ?thesis
    using loop_fails_dead_run[where st = st1 and k = k and e = e and now = now] assms(1,2,5) dead t ids
    unfolding f fin_def[symmetric] by simp
qed

theorem medic_pass_fails_dead_run_witness:
  "distinct (map r_id (runs db_dead)) \<and> 0 < length (runs db_dead)
   \<and> r_status (runs db_dead ! 0) = Run_running
   \<and> filter (\<lambda>s. s_run_id s = r_id (runs db_dead ! 0)
               \<and> s_status s \<in> {Step_waiting, Step_pending, Step_running}) (steps db_dead) = []
   \<and> r_id (runs db_dead ! 0) \<noteq> []
   \<and> r_status (runs (snd (runMedicCheck e0 now0 db_dead)) ! 0) = Run_failed"
  using medic_pass_fails_dead_run[where st = db_dead and k = 0 and e = e0 and now = now0]
  by (simp add: db_dead_def db_stuck_def step_done_def step0_def run0_def)

section \<open>Claims about the resume counter\<close>

text \<open>A failed run that can be resumed, in the findings of a pass.\<close>

lemma resumeCount_of_meta: "r_meta a = r_meta b \<Longrightarrow> resumeCount_of a = resumeCount_of b"
  by (simp add: resumeCount_of_def)

lemma resume_findings_of_run:
  assumes dr: "distinct (map r_id (runs st))" and k: "k < length (runs st)"
  shows "filter (\<lambda>f. action f = Resume_run \<and> runId f = Some (r_id (runs st ! k)))
           (gather_findings e now st) =
         (if failed_with_open_stories st (runs st ! k) \<and> resume_due now (runs st ! k)
          then [resumable_finding st (runs st ! k)] else [])"
proof -
  let ?r = "runs st ! k"
  let ?H = "\<lambda>f. action f = Resume_run \<and> runId f = Some (r_id ?r)"
  have rin: "?r \<in> set (runs st)" using k by simp
  have key: "(\<lambda>r. ?H (resumable_finding st r)) = (\<lambda>r. r_id r = r_id ?r)"
    by (rule ext) simp
  have "filter ?H (checkFailedRunsForResume now st) =
      map (resumable_finding st) (filter (\<lambda>r. failed_with_open_stories st r \<and> resume_due now r)
        (filter (\<lambda>r. r_id r = r_id ?r) (runs st)))"
    unfolding checkFailedRunsForResume_def filter_map comp_def key
    by (simp add: conj_ac)
  then have "filter ?H (checkFailedRunsForResume now st) =
         (if failed_with_open_stories st ?r \<and> resume_due now ?r
          then [resumable_finding st ?r] else [])"
    using filter_by_key_single[OF dr rin] by simp
  then show ?thesis using gather_filter_resume_run[of ?H e now st] by simp
qed

text \<open>The row of a run after its resume, and after each other remediation.\<close>

lemma resume_run_row:
  assumes "k < length (runs st)" "distinct (map r_id (runs st))"
    and "runId f = Some (r_id (runs st ! k))"
  shows "runs (snd (remediate_resume_run e now f st)) ! k = runs st ! k
     \<or> (r_status (runs st ! k) = Run_failed
        \<and> runs (snd (remediate_resume_run e now f st)) ! k =
            (runs st ! k)\<lparr>r_status := Run_running, r_updated_at := datetime_now now,
               r_meta := Some \<lparr>medic_resume_count = Some (resumeCount_of (runs st ! k) + 1),
                                medic_last_resume = Some now\<rparr>\<rparr>)"
proof (cases "r_status (runs st ! k) = Run_failed")
  case True
  then have "find (\<lambda>r. r_id r = r_id (runs st ! k) \<and> r_status r = Run_failed) (runs st)
      = Some (runs st ! k)"
    using find_nth_by_key_and[OF assms(2,1), of "\<lambda>r. r_status r = Run_failed"] by simp
  then show ?thesis using assms True
    by (simp add: remediate_resume_run_def Let_def emitEvent_def nth_update_where
        split: option.splits)
next
  case False
  then show ?thesis using resume_run_meta[OF assms, of e now] by blast
qed

lemma remediate_resumes:
  assumes k: "k < length (runs st)" and dr: "distinct (map r_id (runs st))"
  shows "runs (snd (remediate e now f st)) ! k = runs st ! k
    \<or> r_status (runs (snd (remediate e now f st)) ! k) = Run_failed
       \<and> r_meta (runs (snd (remediate e now f st)) ! k) = r_meta (runs st ! k)
    \<or> action f = Resume_run \<and> runId f = Some (r_id (runs st ! k))
       \<and> r_status (runs st ! k) = Run_failed
       \<and> runs (snd (remediate e now f st)) ! k =
            (runs st ! k)\<lparr>r_status := Run_running, r_updated_at := datetime_now now,
               r_meta := Some \<lparr>medic_resume_count = Some (resumeCount_of (runs st ! k) + 1),
                                medic_last_resume = Some now\<rparr>\<rparr>"
proof (cases "action f = Resume_run \<and> runId f = Some (r_id (runs st ! k))")
  case True
  then have "snd (remediate e now f st) = snd (remediate_resume_run e now f st)"
    by (simp add: remediate_def)
  then show ?thesis using resume_run_row[OF k dr, of f e now] True by auto
next
  case False
  then have n: "action f = Resume_run \<longrightarrow> runId f \<noteq> Some (r_id (runs st ! k))" by simp
  have m: "r_meta (runs (snd (remediate e now f st)) ! k) = r_meta (runs st ! k)"
    using run_meta_frame[OF k n] .
  show ?thesis
  proof (cases "action f \<in> {Reset_step, Fail_run} \<and> runId f = Some (r_id (runs st ! k))")
    case True
    then have "runs (snd (remediate e now f st)) ! k = runs st ! k
        \<or> r_status (runs (snd (remediate e now f st)) ! k) = Run_failed"
      using k
      by (auto simp: remediate_def remediate_reset_step_def remediate_fail_run_def Let_def
          emitEvent_def nth_update_where fail_run_row_def split: option.splits)
    then show ?thesis using m by auto
  next
    case False
    then have "action f \<in> {Reset_step, Fail_run, Resume_run}
        \<longrightarrow> runId f \<noteq> Some (r_id (runs st ! k))"
      using n by auto
    then show ?thesis using run_frame[OF k] by blast
  qed
qed

text \<open>
  No finding of a pass fails a run that was \<open>failed\<close> when the checks ran, so such a run
  is as it was after the pass, or resumed.
\<close>

lemma failed_run_findings:
  assumes dr: "distinct (map r_id (runs st))" and k: "k < length (runs st)"
    and failed: "r_status (runs st ! k) = Run_failed"
    and f: "f \<in> set (gather_findings e now st)"
    and act: "action f = Reset_step \<or> action f = Fail_run"
  shows "runId f \<noteq> Some (r_id (runs st ! k))"
proof -
  have other: "r_id r \<noteq> r_id (runs st ! k)"
    if "r \<in> set (runs st)" "r_status r = Run_running" for r
  proof
    assume "r_id r = r_id (runs st ! k)"
    then have "r = runs st ! k"
      using distinct_key_eq[OF dr that(1), of "runs st ! k"] k by simp
    then show False using that(2) failed by simp
  qed
  show ?thesis using f
  proof (cases rule: gather_findings_cases)
    case (story t r)
    then show ?thesis using act by simp
  next
    case (claimed s r)
    then show ?thesis using other[OF claimed(2,5)] by simp
  next
    case (stuck s r)
    then show ?thesis using other[OF stuck(2,5)] by simp
  next
    case stalled
    then show ?thesis using act by simp
  next
    case (dead r)
    then show ?thesis using other[OF dead(1)] by (simp add: dead_run_def)
  next
    case (resume r)
    then show ?thesis using act by simp
  next
    case crons
    then show ?thesis using act by auto
  qed
qed

lemma loop_resume_row:
  fixes e :: env and now :: time
  assumes dr: "distinct (map r_id (runs st))" and k: "k < length (runs st)"
    and failed: "r_status (runs st ! k) = Run_failed"
  defines "fin \<equiv> foldl (apply_finding e now) st (gather_findings e now st)"
  shows "runs fin ! k = runs st ! k
    \<or> (failed_with_open_stories st (runs st ! k) \<and> resume_due now (runs st ! k)
       \<and> runs fin ! k =
            (runs st ! k)\<lparr>r_status := Run_running, r_updated_at := datetime_now now,
               r_meta := Some \<lparr>medic_resume_count = Some (resumeCount_of (runs st ! k) + 1),
                                medic_last_resume = Some now\<rparr>\<rparr>)"
proof (cases "failed_with_open_stories st (runs st ! k) \<and> resume_due now (runs st ! k)")
  case False
  then have none: "filter (\<lambda>f. action f = Resume_run \<and> runId f = Some (r_id (runs st ! k)))
           (gather_findings e now st) = []"
    using resume_findings_of_run[OF dr k] by simp
  have "\<forall>f \<in> set (gather_findings e now st).
      action f \<in> {Reset_step, Fail_run, Resume_run} \<longrightarrow> runId f \<noteq> Some (r_id (runs st ! k))"
  proof (intro ballI impI)
    fix f assume f: "f \<in> set (gather_findings e now st)"
      and a: "action f \<in> {Reset_step, Fail_run, Resume_run}"
    show "runId f \<noteq> Some (r_id (runs st ! k))"
    proof (cases "action f = Resume_run")
      case True
      then show ?thesis using none f by (auto simp: filter_empty_conv)
    next
      case False
      then have "action f = Reset_step \<or> action f = Fail_run" using a by simp
      then show ?thesis using failed_run_findings[OF dr k failed f] by simp
    qed
  qed
  then have "runs fin ! k = runs st ! k"
    unfolding fin_def using fold_run_frame[OF same_keys_refl k] by blast
  then show ?thesis by simp
next
  case True
  let ?r = "runs st ! k"
  let ?H = "\<lambda>f. action f = Resume_run \<and> runId f = Some (r_id ?r)"
  let ?f0 = "resumable_finding st ?r"
  have one: "filter ?H (gather_findings e now st) = [?f0]"
    using resume_findings_of_run[OF dr k] True by simp
  obtain A B where split: "gather_findings e now st = A @ ?f0 # B"
    and A: "\<forall>a \<in> set A. \<not> ?H a" and B: "\<forall>b \<in> set B. \<not> ?H b"
    using filter_single_split[OF one] by metis
  have sub: "set A \<subseteq> set (gather_findings e now st)" "set B \<subseteq> set (gather_findings e now st)"
    unfolding split by auto
  have fr: "action f \<in> {Reset_step, Fail_run, Resume_run} \<longrightarrow> runId f \<noteq> Some (r_id ?r)"
    if "f \<in> set (gather_findings e now st)" "\<not> ?H f" for f
  proof (cases "action f = Resume_run")
    case True
    then show ?thesis using that(2) by simp
  next
    case False
    show ?thesis
    proof
      assume "action f \<in> {Reset_step, Fail_run, Resume_run}"
      then have "action f = Reset_step \<or> action f = Fail_run" using False by simp
      then show "runId f \<noteq> Some (r_id ?r)"
        using failed_run_findings[OF dr k failed that(1)] by simp
    qed
  qed
  have NA: "\<forall>f \<in> set A. action f \<in> {Reset_step, Fail_run, Resume_run}
      \<longrightarrow> runId f \<noteq> Some (r_id ?r)"
    using fr A sub(1) by blast
  have NB: "\<forall>f \<in> set B. action f \<in> {Reset_step, Fail_run, Resume_run}
      \<longrightarrow> runId f \<noteq> Some (r_id ?r)"
    using fr B sub(2) by blast
  define stA where "stA = foldl (apply_finding e now) st A"
  define stF where "stF = apply_finding e now stA ?f0"
  have fin: "fin = foldl (apply_finding e now) stF B"
    by (simp add: fin_def split stA_def stF_def)
  have skA: "same_keys st stA" unfolding stA_def by (rule same_keys_fold) simp
  have skF: "same_keys st stF"
    unfolding stF_def using same_keys_trans[OF skA same_keys_apply] .
  have rowA: "runs stA ! k = ?r"
    unfolding stA_def using fold_run_frame[OF same_keys_refl k NA] .
  have lenA: "k < length (runs stA)" using same_keys_runs(1)[OF skA] k by simp
  have dA: "distinct (map r_id (runs stA))" using same_keys_runs(2)[OF skA] dr by simp
  have "stF = snd (remediate_resume_run e now ?f0 stA)"
    by (simp add: stF_def apply_finding_def remediate_def)
  then have F: "runs stF ! k = ?r
     \<or> runs stF ! k =
            ?r\<lparr>r_status := Run_running, r_updated_at := datetime_now now,
               r_meta := Some \<lparr>medic_resume_count = Some (resumeCount_of ?r + 1),
                                medic_last_resume = Some now\<rparr>\<rparr>"
    using resume_run_row[OF lenA dA, of ?f0 e now] rowA by auto
  have "runs fin ! k = runs stF ! k"
    unfolding fin using fold_run_frame[OF skF k NB] .
  then show ?thesis using F True by auto
qed

lemma loop_not_failed_meta:
  fixes e :: env and now :: time
  assumes dr: "distinct (map r_id (runs st))" and k: "k < length (runs st)"
    and nf: "r_status (runs st ! k) \<noteq> Run_failed"
  shows "r_meta (runs (foldl (apply_finding e now) st (gather_findings e now st)) ! k)
     = r_meta (runs st ! k)"
proof -
  have "filter (\<lambda>f. action f = Resume_run \<and> runId f = Some (r_id (runs st ! k)))
           (gather_findings e now st) = []"
    using resume_findings_of_run[OF dr k] nf by (simp add: failed_with_open_stories_def)
  then have "\<forall>f \<in> set (gather_findings e now st).
      action f = Resume_run \<longrightarrow> runId f \<noteq> Some (r_id (runs st ! k))"
    by (auto simp: filter_empty_conv)
  then show ?thesis using fold_run_meta_frame[OF same_keys_refl k] by blast
qed

text \<open>
  Claim C5. In a store whose run ids are distinct, a medic pass leaves the resume
  counter of a run as it is or adds exactly one to it, and it adds one exactly when
  it resumes the run: the run was \<open>failed\<close> with a story \<open>pending\<close> or \<open>running\<close>, its
  counter was below 3 and its last medic resume was more than ten minutes before the
  pass, and after the pass the run is \<open>running\<close> with the time of the pass as its last
  resume. Conversely, a \<open>failed\<close> run that is no longer \<open>failed\<close> after the pass is
  \<open>running\<close> and its counter is one higher, under the same conditions on the counter
  and the last resume. So a counter that is at most 3 before a pass is at most 3 after
  it. The same link holds for the remediation of any single finding: it takes a
  \<open>failed\<close> run out of \<open>failed\<close> only as a resume of that run, which adds one to the
  counter, and it changes the counter only in that way.
\<close>

theorem medic_resume_bound:
  assumes "distinct (map r_id (runs st))" and "k < length (runs st)"
  shows "(resumeCount_of (runs (snd (runMedicCheck e now st)) ! k) = resumeCount_of (runs st ! k)
      \<or> resumeCount_of (runs (snd (runMedicCheck e now st)) ! k) = resumeCount_of (runs st ! k) + 1
         \<and> r_status (runs st ! k) = Run_failed
         \<and> r_status (runs (snd (runMedicCheck e now st)) ! k) = Run_running
         \<and> lastResume_of (runs (snd (runMedicCheck e now st)) ! k) = now
         \<and> list_ex (\<lambda>t. st_run_id t = r_id (runs st ! k)
                         \<and> st_status t \<in> {Story_pending, Story_running}) (stories st)
         \<and> resumeCount_of (runs st ! k) < 3
         \<and> now - lastResume_of (runs st ! k) > 10 * 60 * 1000)
    \<and> (r_status (runs st ! k) = Run_failed
        \<and> r_status (runs (snd (runMedicCheck e now st)) ! k) \<noteq> Run_failed
        \<longrightarrow> r_status (runs (snd (runMedicCheck e now st)) ! k) = Run_running
          \<and> resumeCount_of (runs (snd (runMedicCheck e now st)) ! k) = resumeCount_of (runs st ! k) + 1
          \<and> lastResume_of (runs (snd (runMedicCheck e now st)) ! k) = now
          \<and> list_ex (\<lambda>t. st_run_id t = r_id (runs st ! k)
                         \<and> st_status t \<in> {Story_pending, Story_running}) (stories st)
          \<and> resumeCount_of (runs st ! k) < 3
          \<and> now - lastResume_of (runs st ! k) > 10 * 60 * 1000)
    \<and> (resumeCount_of (runs st ! k) \<le> 3
        \<longrightarrow> resumeCount_of (runs (snd (runMedicCheck e now st)) ! k) \<le> 3)
    \<and> (r_status (runs st ! k) = Run_failed
        \<and> r_status (runs (snd (remediate e now f st)) ! k) \<noteq> Run_failed
        \<longrightarrow> action f = Resume_run \<and> runId f = Some (r_id (runs st ! k))
          \<and> r_status (runs (snd (remediate e now f st)) ! k) = Run_running
          \<and> resumeCount_of (runs (snd (remediate e now f st)) ! k)
              = resumeCount_of (runs st ! k) + 1)
    \<and> (resumeCount_of (runs (snd (remediate e now f st)) ! k) \<noteq> resumeCount_of (runs st ! k)
        \<longrightarrow> action f = Resume_run \<and> runId f = Some (r_id (runs st ! k))
          \<and> r_status (runs st ! k) = Run_failed
          \<and> r_status (runs (snd (remediate e now f st)) ! k) = Run_running
          \<and> resumeCount_of (runs (snd (remediate e now f st)) ! k)
              = resumeCount_of (runs st ! k) + 1)"
proof -
  let ?r = "runs st ! k"
  define st1 where "st1 = snd (restoreActiveRunCrons e st)"
  define fin where "fin = foldl (apply_finding e now) st1 (gather_findings e now st1)"
  define r' where "r' = runs (snd (runMedicCheck e now st)) ! k"
  define q where "q = runs (snd (remediate e now f st)) ! k"
  define resumed where "resumed = ?r\<lparr>r_status := Run_running, r_updated_at := datetime_now now,
               r_meta := Some \<lparr>medic_resume_count = Some (resumeCount_of ?r + 1),
                                medic_last_resume = Some now\<rparr>\<rparr>"
  have res: "r_status resumed = Run_running" "resumeCount_of resumed = resumeCount_of ?r + 1"
    "lastResume_of resumed = now"
    by (simp_all add: resumed_def resumeCount_of_def lastResume_of_def)
  have t: "stories st1 = stories st" "runs st1 = runs st" by (simp_all add: st1_def)
  have f: "r' = runs fin ! k"
    by (simp add: r'_def runMedicCheck_tables fin_def st1_def)
  have fwos: "failed_with_open_stories st1 ?r \<Longrightarrow>
      list_ex (\<lambda>t. st_run_id t = r_id ?r
                         \<and> st_status t \<in> {Story_pending, Story_running}) (stories st)"
    by (simp add: failed_with_open_stories_def open_story_def t)
  have due: "resume_due now ?r \<Longrightarrow>
      resumeCount_of ?r < 3 \<and> now - lastResume_of ?r > 10 * 60 * 1000"
    by (simp add: resume_due_def RESUME_MAX_ATTEMPTS_def RESUME_COOLDOWN_MS_def)
  have pass: "r_meta r' = r_meta ?r \<and> (r_status ?r = Run_failed \<longrightarrow> r_status r' = Run_failed)
      \<or> (r' = resumed \<and> r_status ?r = Run_failed
          \<and> list_ex (\<lambda>t. st_run_id t = r_id ?r
                         \<and> st_status t \<in> {Story_pending, Story_running}) (stories st)
          \<and> resumeCount_of ?r < 3 \<and> now - lastResume_of ?r > 10 * 60 * 1000)"
  proof (cases "r_status ?r = Run_failed")
    case True
    have "runs fin ! k = runs st1 ! k
      \<or> (failed_with_open_stories st1 (runs st1 ! k) \<and> resume_due now (runs st1 ! k)
         \<and> runs fin ! k =
            (runs st1 ! k)\<lparr>r_status := Run_running, r_updated_at := datetime_now now,
               r_meta := Some \<lparr>medic_resume_count = Some (resumeCount_of (runs st1 ! k) + 1),
                                medic_last_resume = Some now\<rparr>\<rparr>)"
      unfolding fin_def
      using loop_resume_row[where st = st1 and k = k and e = e and now = now] assms t True
      by simp
    then have "r' = ?r \<or> (failed_with_open_stories st1 ?r \<and> resume_due now ?r \<and> r' = resumed)"
      unfolding f resumed_def t by simp
    then show ?thesis using True fwos due by auto
  next
    case False
    have "r_meta (runs fin ! k) = r_meta (runs st1 ! k)"
      unfolding fin_def
      using loop_not_failed_meta[where st = st1 and k = k and e = e and now = now] assms t False
      by simp
    then show ?thesis using False unfolding f t by simp
  qed
  have one: "q = ?r
    \<or> r_status q = Run_failed \<and> r_meta q = r_meta ?r
    \<or> action f = Resume_run \<and> runId f = Some (r_id ?r) \<and> r_status ?r = Run_failed \<and> q = resumed"
    unfolding q_def resumed_def using remediate_resumes[OF assms(2,1), of e now f] .
  have m: "resumeCount_of a = resumeCount_of b" if "r_meta a = r_meta b" for a b
    using that by (rule resumeCount_of_meta)
  have c1: "resumeCount_of r' = resumeCount_of ?r
      \<or> resumeCount_of r' = resumeCount_of ?r + 1
         \<and> r_status ?r = Run_failed \<and> r_status r' = Run_running \<and> lastResume_of r' = now
         \<and> list_ex (\<lambda>t. st_run_id t = r_id ?r
                         \<and> st_status t \<in> {Story_pending, Story_running}) (stories st)
         \<and> resumeCount_of ?r < 3 \<and> now - lastResume_of ?r > 10 * 60 * 1000"
    using pass res m[of r' ?r] by blast
  have c2: "r_status ?r = Run_failed \<and> r_status r' \<noteq> Run_failed
        \<longrightarrow> r_status r' = Run_running
          \<and> resumeCount_of r' = resumeCount_of ?r + 1 \<and> lastResume_of r' = now
          \<and> list_ex (\<lambda>t. st_run_id t = r_id ?r
                         \<and> st_status t \<in> {Story_pending, Story_running}) (stories st)
          \<and> resumeCount_of ?r < 3 \<and> now - lastResume_of ?r > 10 * 60 * 1000"
    using pass res by blast
  have c3: "resumeCount_of ?r \<le> 3 \<longrightarrow> resumeCount_of r' \<le> 3"
    using c1 by auto
  have c5: "r_status ?r = Run_failed \<and> r_status q \<noteq> Run_failed
        \<longrightarrow> action f = Resume_run \<and> runId f = Some (r_id ?r)
          \<and> r_status q = Run_running \<and> resumeCount_of q = resumeCount_of ?r + 1"
    using one res by auto
  have c6: "resumeCount_of q \<noteq> resumeCount_of ?r
        \<longrightarrow> action f = Resume_run \<and> runId f = Some (r_id ?r)
          \<and> r_status ?r = Run_failed
          \<and> r_status q = Run_running \<and> resumeCount_of q = resumeCount_of ?r + 1"
    using one res m[of q ?r] by auto
  show ?thesis
    unfolding r'_def[symmetric] q_def[symmetric]
    apply (intro conjI)
        apply (rule c1)
       apply (rule c2)
      apply (rule c3)
     apply (rule c5)
    apply (rule c6)
    done
qed

lemma gather_db_failed:
  "gather_findings e0 now0 db_failed = [resumable_finding db_failed run_failed2]"
  by (simp add: gather_findings_def runSyncChecks_def checkOrphanedStories_def
      checkClaimedButStuck_def checkStuckSteps_def checkStalledRuns_def checkDeadRuns_def
      checkFailedRunsForResume_def checkStalledWorkflowCrons_def checkOrphanedCrons_def
      stories_join_runs_def steps_join_runs_def join_runs_def last_step_update_def
      dead_run_def failed_with_open_stories_def open_story_def resume_due_def
      resumeCount_of_def lastResume_of_def running_workflows_def listCronJobs_def
      RESUME_MAX_ATTEMPTS_def RESUME_COOLDOWN_MS_def
      db_failed_def db_stuck_def run_failed2_def run0_def step_failed_def step0_def story0_def
      gw0_def now0_def e0_def)

lemma pass_db_failed_row:
  "resumeCount_of (runs (snd (runMedicCheck e0 now0 db_failed)) ! 0) = 3
   \<and> r_status (runs (snd (runMedicCheck e0 now0 db_failed)) ! 0) = Run_running
   \<and> lastResume_of (runs (snd (runMedicCheck e0 now0 db_failed)) ! 0) = now0"
proof -
  have r: "running_workflows db_failed = []"
    by (simp add: running_workflows_def db_failed_def db_stuck_def run_failed2_def run0_def)
  have st1: "snd (restoreActiveRunCrons e0 db_failed) = db_failed"
    by (simp add: restoreActiveRunCrons_def r)
  show ?thesis
    unfolding runMedicCheck_tables st1 gather_db_failed
    by (simp add: apply_finding_def remediate_def remediate_resume_run_def resume_steps_def
        resume_loopStep_def Let_def emitEvent_def update_where_def resumeCount_of_def
        lastResume_of_def
        db_failed_def db_stuck_def run_failed2_def run0_def step_failed_def step0_def story0_def
        e0_def)
qed

lemma gather_db_failed3: "gather_findings e0 now0 db_failed3 = []"
  by (simp add: gather_findings_def runSyncChecks_def checkOrphanedStories_def
      checkClaimedButStuck_def checkStuckSteps_def checkStalledRuns_def checkDeadRuns_def
      checkFailedRunsForResume_def checkStalledWorkflowCrons_def checkOrphanedCrons_def
      stories_join_runs_def steps_join_runs_def join_runs_def last_step_update_def
      dead_run_def failed_with_open_stories_def open_story_def resume_due_def
      resumeCount_of_def lastResume_of_def running_workflows_def listCronJobs_def
      RESUME_MAX_ATTEMPTS_def RESUME_COOLDOWN_MS_def
      db_failed3_def db_failed_def db_stuck_def run_failed3_def run0_def step_failed_def
      step0_def story0_def gw0_def now0_def e0_def)

lemma pass_db_failed3_row:
  "runs (snd (runMedicCheck e0 now0 db_failed3)) ! 0 = run_failed3"
proof -
  have r: "running_workflows db_failed3 = []"
    by (simp add: running_workflows_def db_failed3_def db_failed_def db_stuck_def
        run_failed3_def run0_def)
  have st1: "snd (restoreActiveRunCrons e0 db_failed3) = db_failed3"
    by (simp add: restoreActiveRunCrons_def r)
  show ?thesis
    unfolding runMedicCheck_tables st1 gather_db_failed3
    by (simp add: db_failed3_def db_failed_def db_stuck_def)
qed

lemma db_failed_rows:
  "distinct (map r_id (runs db_failed))" "0 < length (runs db_failed)"
  "r_status (runs db_failed ! 0) = Run_failed" "resumeCount_of (runs db_failed ! 0) = 2"
  "lastResume_of (runs db_failed ! 0) = 0"
  "distinct (map r_id (runs db_failed3))" "0 < length (runs db_failed3)"
  "r_status (runs db_failed3 ! 0) = Run_failed" "resumeCount_of (runs db_failed3 ! 0) = 3"
  "r_status run_failed3 = Run_failed" "resumeCount_of run_failed3 = 3"
  by (simp_all add: db_failed3_def db_failed_def db_stuck_def run_failed2_def run_failed3_def
      run0_def resumeCount_of_def lastResume_of_def)

theorem medic_resume_bound_witness:
  "distinct (map r_id (runs db_failed)) \<and> 0 < length (runs db_failed)
   \<and> r_status (runs db_failed ! 0) = Run_failed
   \<and> resumeCount_of (runs db_failed ! 0) = 2
   \<and> now0 - lastResume_of (runs db_failed ! 0) > 10 * 60 * 1000
   \<and> r_status (runs (snd (runMedicCheck e0 now0 db_failed)) ! 0) = Run_running
   \<and> resumeCount_of (runs (snd (runMedicCheck e0 now0 db_failed)) ! 0) = 3
   \<and> lastResume_of (runs (snd (runMedicCheck e0 now0 db_failed)) ! 0) = now0
   \<and> distinct (map r_id (runs db_failed3)) \<and> 0 < length (runs db_failed3)
   \<and> r_status (runs db_failed3 ! 0) = Run_failed
   \<and> resumeCount_of (runs db_failed3 ! 0) = 3
   \<and> r_status (runs (snd (runMedicCheck e0 now0 db_failed3)) ! 0) = Run_failed
   \<and> resumeCount_of (runs (snd (runMedicCheck e0 now0 db_failed3)) ! 0) = 3"
  using medic_resume_bound[where st = db_failed and k = 0 and e = e0 and now = now0
      and f = "resumable_finding db_failed run_failed2"]
    medic_resume_bound[where st = db_failed3 and k = 0 and e = e0 and now = now0
      and f = "resumable_finding db_failed3 run_failed3"]
    pass_db_failed_row pass_db_failed3_row db_failed_rows
  by (simp add: now0_def)

section \<open>Claims about orphaned stories\<close>

text \<open>An orphaned story in the findings of a pass.\<close>

lemma orphaned_story_found_once:
  assumes dt: "distinct (map st_id (stories st))" and dr: "distinct (map r_id (runs st))"
    and j: "j < length (stories st)" and k: "k < length (runs st)"
    and rk: "r_id (runs st ! k) = st_run_id (stories st ! j)"
    and run: "st_status (stories st ! j) = Story_running" "r_status (runs st ! k) = Run_running"
    and age: "now - st_updated_at (stories st ! j) > STORY_STUCK_THRESHOLD_MS"
  shows "filter (\<lambda>f. action f = Reset_story \<and> storyId f = Some (st_id (stories st ! j)))
           (gather_findings e now st) = [orphaned_story_finding now (stories st ! j, runs st ! k)]"
proof -
  let ?t = "stories st ! j" and ?r = "runs st ! k"
  let ?H = "\<lambda>f. action f = Reset_story \<and> storyId f = Some (st_id ?t)"
  have tin: "?t \<in> set (stories st)" and rin: "?r \<in> set (runs st)" using j k by simp_all
  have key: "(\<lambda>p. ?H (orphaned_story_finding now p)) = (\<lambda>p. st_id (fst p) = st_id ?t)"
    by (rule ext) (auto simp: split_paired_all)
  have "filter ?H (checkOrphanedStories now st) =
        map (orphaned_story_finding now)
          (filter (\<lambda>(t, r). st_status t = Story_running \<and> r_status r = Run_running
                  \<and> now - st_updated_at t > STORY_STUCK_THRESHOLD_MS)
             (filter (\<lambda>p. st_id (fst p) = st_id ?t) (join_runs st_run_id (stories st) (runs st))))"
    unfolding checkOrphanedStories_def stories_join_runs_def filter_map comp_def key
    by (simp add: conj_commute)
  then have "filter ?H (checkOrphanedStories now st) = [orphaned_story_finding now (?t, ?r)]"
    using join_runs_single[of st_id "stories st" "runs st" ?t ?r st_run_id]
      dt dr tin rin rk run age by simp
  then show ?thesis using gather_filter_reset_story[of ?H e now st] by simp
qed

lemma find_proj:
  "map k xs' = map k xs \<Longrightarrow> map p xs' = map p xs \<Longrightarrow>
   map_option p (find (\<lambda>x. k x = v) xs') = map_option p (find (\<lambda>x. k x = v) xs)"
proof (induction xs arbitrary: xs')
  case Nil
  then show ?case by simp
next
  case (Cons x xs)
  obtain y ys where xs': "xs' = y # ys" using Cons.prems(1) by (cases xs') auto
  have eqs: "map k ys = map k xs" "map p ys = map p xs" "k y = k x" "p y = p x"
    using Cons.prems xs' by simp_all
  show ?case using Cons.IH[OF eqs(1,2)] eqs(3,4) by (simp add: xs')
qed

lemma merged_pr_of_alt:
  "merged_pr_of e st sid row =
     (case (map_option st_story_id (find (\<lambda>t. st_id t = sid) (stories st)),
            map_option r_task (find (\<lambda>r. r_id r = st_run_id row) (runs st))) of
        (Some story_name, Some task) \<Rightarrow>
          (case extractRepoUrl task of
             None \<Rightarrow> None
           | Some repoUrl \<Rightarrow>
               (case checkMergedPR e repoUrl story_name (st_run_id row) of
                  None \<Rightarrow> None
                | Some prUrl \<Rightarrow> if prUrl = [] then None else Some (prUrl, story_name)))
      | _ \<Rightarrow> None)"
  by (simp add: merged_pr_of_def split: option.splits)

lemma merged_pr_of_same_keys:
  assumes "same_keys st st'" "st_run_id row' = st_run_id row"
  shows "merged_pr_of e st' sid row' = merged_pr_of e st sid row"
proof -
  have a: "map_option st_story_id (find (\<lambda>t. st_id t = sid) (stories st')) =
           map_option st_story_id (find (\<lambda>t. st_id t = sid) (stories st))"
    using assms(1) by (intro find_proj) (simp_all add: same_keys_def)
  have b: "map_option r_task (find (\<lambda>r. r_id r = st_run_id row) (runs st')) =
           map_option r_task (find (\<lambda>r. r_id r = st_run_id row) (runs st))"
    using assms(1) by (intro find_proj) (simp_all add: same_keys_def)
  show ?thesis unfolding merged_pr_of_alt assms(2) a b ..
qed

lemma story_after_not_failed: "st_status (story_after e now st t) \<noteq> Story_failed"
  by (simp add: story_after_def split: option.splits prod.splits)

lemma reset_story_after:
  assumes "j < length (stories st)" "distinct (map st_id (stories st))"
    and "storyId f = Some (st_id (stories st ! j))" "st_id (stories st ! j) \<noteq> []"
    and "st_status (stories st ! j) = Story_running"
  shows "stories (snd (remediate_reset_story e now f st)) ! j =
     story_after e now st (stories st ! j)"
  using reset_story_effect[OF assms, of e now] by (simp add: story_after_def)

lemma loop_resets_orphaned_story:
  assumes dt: "distinct (map st_id (stories st))" and dr: "distinct (map r_id (runs st))"
    and j: "j < length (stories st)" and k: "k < length (runs st)"
    and rk: "r_id (runs st ! k) = st_run_id (stories st ! j)"
    and run: "st_status (stories st ! j) = Story_running" "r_status (runs st ! k) = Run_running"
    and age: "now - st_updated_at (stories st ! j) > STORY_STUCK_THRESHOLD_MS"
    and ne: "st_id (stories st ! j) \<noteq> []"
  shows "stories (foldl (apply_finding e now) st (gather_findings e now st)) ! j =
         story_after e now st (stories st ! j)"
proof -
  let ?t = "stories st ! j" and ?r = "runs st ! k"
  let ?H = "\<lambda>f. action f = Reset_story \<and> storyId f = Some (st_id ?t)"
  let ?f0 = "orphaned_story_finding now (?t, ?r)"
  obtain A B where split: "gather_findings e now st = A @ ?f0 # B"
    and A: "\<forall>a \<in> set A. \<not> ?H a" and B: "\<forall>b \<in> set B. \<not> ?H b"
    using filter_single_split[OF orphaned_story_found_once[OF dt dr j k rk run age]] by metis
  have NA: "\<forall>f \<in> set A. action f = Reset_story \<longrightarrow> storyId f \<noteq> Some (st_id ?t)"
    using A by auto
  have NB: "\<forall>f \<in> set B. action f = Reset_story \<longrightarrow> storyId f \<noteq> Some (st_id ?t)"
    using B by auto
  define stA where "stA = foldl (apply_finding e now) st A"
  define stF where "stF = apply_finding e now stA ?f0"
  have fin: "foldl (apply_finding e now) st (gather_findings e now st) =
      foldl (apply_finding e now) stF B"
    by (simp add: split stA_def stF_def)
  have skA: "same_keys st stA" unfolding stA_def by (rule same_keys_fold) simp
  have skF: "same_keys st stF"
    unfolding stF_def using same_keys_trans[OF skA same_keys_apply] .
  have nf: "st_status ?t \<noteq> Story_failed" using run(1) by simp
  have rowA: "stories stA ! j = ?t"
    unfolding stA_def using fold_story_frame[OF same_keys_refl dt j nf NA] .
  have lenA: "j < length (stories stA)" using same_keys_stories(1)[OF skA] j by simp
  have dA: "distinct (map st_id (stories stA))" using same_keys_stories(2)[OF skA] dt by simp
  have pr: "merged_pr_of e stA (st_id ?t) ?t = merged_pr_of e st (st_id ?t) ?t"
    using merged_pr_of_same_keys[OF skA] by simp
  have stF_eq: "stF = snd (remediate_reset_story e now ?f0 stA)"
    by (simp add: stF_def apply_finding_def remediate_def)
  have f0: "storyId ?f0 = Some (st_id (stories stA ! j))" "st_id (stories stA ! j) \<noteq> []"
    "st_status (stories stA ! j) = Story_running"
    using rowA ne run(1) by simp_all
  have "stories stF ! j = story_after e now stA (stories stA ! j)"
    unfolding stF_eq by (rule reset_story_after[OF lenA dA f0])
  then have rowF: "stories stF ! j = story_after e now st ?t"
    by (simp add: story_after_def rowA pr)
  have nfF: "st_status (stories stF ! j) \<noteq> Story_failed"
    unfolding rowF by (rule story_after_not_failed)
  have "stories (foldl (apply_finding e now) stF B) ! j = stories stF ! j"
    by (rule fold_story_frame[OF skF dt j nfF NB])
  then show ?thesis using fin rowF by simp
qed

lemma same_keys_types:
  assumes "same_keys st0 st"
  shows "i < length (steps st0) \<Longrightarrow> s_type (steps st ! i) = s_type (steps st0 ! i)"
proof -
  have a: "map s_type (steps st) = map s_type (steps st0)"
    using assms by (simp add: same_keys_def)
  have len: "length (steps st) = length (steps st0)" using same_keys_steps(1)[OF assms] .
  show "i < length (steps st0) \<Longrightarrow> s_type (steps st ! i) = s_type (steps st0 ! i)"
    using a len by (metis nth_map)
qed

lemma pass_story_after:
  assumes "distinct (map st_id (stories st))" and "distinct (map r_id (runs st))"
    and "j < length (stories st)" and "k < length (runs st)"
    and "r_id (runs st ! k) = st_run_id (stories st ! j)"
    and "st_status (stories st ! j) = Story_running" and "r_status (runs st ! k) = Run_running"
    and "now - st_updated_at (stories st ! j) > 30 * 60 * 1000"
    and "st_id (stories st ! j) \<noteq> []"
  shows "stories (snd (runMedicCheck e now st)) ! j = story_after e now st (stories st ! j)"
proof -
  define st1 where "st1 = snd (restoreActiveRunCrons e st)"
  have t: "stories st1 = stories st" "runs st1 = runs st" by (simp_all add: st1_def)
  have sa: "story_after e now st1 (stories st ! j) = story_after e now st (stories st ! j)"
    by (simp add: story_after_def merged_pr_of_def t)
  have "stories (foldl (apply_finding e now) st1 (gather_findings e now st1)) ! j =
         story_after e now st1 (stories st1 ! j)"
    using assms t
    by (intro loop_resets_orphaned_story[where k = k]) (simp_all add: STORY_STUCK_THRESHOLD_MS_def)
  then show ?thesis
    by (simp add: runMedicCheck_tables st1_def[symmetric] sa t)
qed

lemma extract_run_repo: "extractRepoUrl (r_task run_repo) = Some ''https://github.com/acme/app''"
  by (simp add: run_repo_def run0_def repo_url_at_def startsWith_def word_char_def Let_def)

lemma merged_pr_db_pr:
  "merged_pr_of e_pr db_pr ''story-1'' story_running =
     Some (''https://github.com/acme/app/pull/7'', ''US_001'')"
proof -
  have a: "find (\<lambda>t. st_id t = ''story-1'') (stories db_pr) = Some story_running"
    "find (\<lambda>r. r_id r = st_run_id story_running) (runs db_pr) = Some run_repo"
    by (simp_all add: db_pr_def db_stuck_def story_running_def story0_def run_repo_def run0_def)
  have b: "checkMergedPR e_pr ''https://github.com/acme/app'' (st_story_id story_running)
      (st_run_id story_running) = Some ''https://github.com/acme/app/pull/7''"
    by (simp add: checkMergedPR_def e_pr_def e0_def startsWith_def pr7_def branch_matches_def
        storyLower_def toLowerCase_def toLowerCase_char_def story_running_def story0_def
        slice0_def Let_def)
  show ?thesis
    unfolding merged_pr_of_def a by (simp add: extract_run_repo b) (simp add: story_running_def story0_def)
qed

lemma no_pr_db_pr: "merged_pr_of e0 db_pr ''story-1'' story_running = None"
proof -
  have a: "find (\<lambda>t. st_id t = ''story-1'') (stories db_pr) = Some story_running"
    "find (\<lambda>r. r_id r = st_run_id story_running) (runs db_pr) = Some run_repo"
    by (simp_all add: db_pr_def db_stuck_def story_running_def story0_def run_repo_def run0_def)
  show ?thesis
    unfolding merged_pr_of_def a by (simp add: extract_run_repo checkMergedPR_def e0_def)
qed

lemma db_pr_rows:
  "distinct (map st_id (stories db_pr))" "distinct (map r_id (runs db_pr))"
  "0 < length (stories db_pr)" "0 < length (runs db_pr)"
  "stories db_pr ! 0 = story_running" "runs db_pr ! 0 = run_repo"
  "r_id run_repo = st_run_id story_running"
  "st_status story_running = Story_running" "r_status run_repo = Run_running"
  "now0 - st_updated_at story_running > 30 * 60 * 1000"
  "st_id story_running = ''story-1''" "st_abandoned_count story_running = Some 3"
  by (simp_all add: db_pr_def db_stuck_def story_running_def story0_def run_repo_def run0_def
      now0_def)

text \<open>
  Claim C2, amended. Take a story that is \<open>running\<close> in a run that is \<open>running\<close>, last
  updated more than 30 minutes ago, for which the pull-request guard finds no merged
  pull request, in a store whose story ids and run ids are distinct and not empty.
  After a medic pass its \<open>abandoned_count\<close> is one more than before; while that count is
  below 5 the story is \<open>pending\<close>, from 5 on it is \<open>skipped\<close>.
\<close>

theorem medic_pass_resets_orphaned_story:
  assumes "distinct (map st_id (stories st))" and "distinct (map r_id (runs st))"
    and "j < length (stories st)" and "k < length (runs st)"
    and "r_id (runs st ! k) = st_run_id (stories st ! j)"
    and "st_status (stories st ! j) = Story_running" and "r_status (runs st ! k) = Run_running"
    and "now - st_updated_at (stories st ! j) > 30 * 60 * 1000"
    and "st_id (stories st ! j) \<noteq> []"
    and "merged_pr_of e st (st_id (stories st ! j)) (stories st ! j) = None"
  shows "st_id (stories (snd (runMedicCheck e now st)) ! j) = st_id (stories st ! j)
    \<and> st_abandoned_count (stories (snd (runMedicCheck e now st)) ! j) =
        Some (count_or_zero (st_abandoned_count (stories st ! j)) + 1)
    \<and> (count_or_zero (st_abandoned_count (stories st ! j)) + 1 < 5
        \<longrightarrow> st_status (stories (snd (runMedicCheck e now st)) ! j) = Story_pending)
    \<and> (count_or_zero (st_abandoned_count (stories st ! j)) + 1 \<ge> 5
        \<longrightarrow> st_status (stories (snd (runMedicCheck e now st)) ! j) = Story_skipped)"
  using pass_story_after[OF assms(1-9), of e] assms(10)
  by (simp add: story_after_def)

theorem medic_pass_resets_orphaned_story_witness:
  "distinct (map st_id (stories db_pr)) \<and> distinct (map r_id (runs db_pr))
   \<and> r_id (runs db_pr ! 0) = st_run_id (stories db_pr ! 0)
   \<and> st_status (stories db_pr ! 0) = Story_running \<and> r_status (runs db_pr ! 0) = Run_running
   \<and> now0 - st_updated_at (stories db_pr ! 0) > 30 * 60 * 1000
   \<and> merged_pr_of e0 db_pr (st_id (stories db_pr ! 0)) (stories db_pr ! 0) = None
   \<and> st_abandoned_count (stories db_pr ! 0) = Some 3
   \<and> st_abandoned_count (stories (snd (runMedicCheck e0 now0 db_pr)) ! 0) = Some 4
   \<and> st_status (stories (snd (runMedicCheck e0 now0 db_pr)) ! 0) = Story_pending"
  using medic_pass_resets_orphaned_story[where st = db_pr and j = 0 and k = 0 and now = now0
      and e = e0] no_pr_db_pr db_pr_rows
  by (simp add: count_or_zero_def)

theorem orphaned_story_with_merged_pr_counterexample:
  "st_status (stories db_pr ! 0) = Story_running \<and> r_status (runs db_pr ! 0) = Run_running
   \<and> r_id (runs db_pr ! 0) = st_run_id (stories db_pr ! 0)
   \<and> now0 - st_updated_at (stories db_pr ! 0) > 30 * 60 * 1000
   \<and> st_abandoned_count (stories db_pr ! 0) = Some 3
   \<and> st_status (stories (snd (runMedicCheck e_pr now0 db_pr)) ! 0) = Story_verified
   \<and> st_abandoned_count (stories (snd (runMedicCheck e_pr now0 db_pr)) ! 0) = Some 0
   \<and> \<not> (st_status (stories (snd (runMedicCheck e_pr now0 db_pr)) ! 0) = Story_pending
         \<and> st_abandoned_count (stories (snd (runMedicCheck e_pr now0 db_pr)) ! 0) = Some (3 + 1))"
  using pass_story_after[where st = db_pr and j = 0 and k = 0 and now = now0 and e = e_pr]
    merged_pr_db_pr db_pr_rows
  by (simp add: story_after_def)

section \<open>Claims about the pull-request guard\<close>

text \<open>No remediation points a loop step at a story.\<close>

lemma resume_steps_current:
  assumes "i < length (steps st)"
  shows "s_current_story_id (steps (resume_steps now st rid x) ! i) = None
     \<or> s_current_story_id (steps (resume_steps now st rid x) ! i) = s_current_story_id (steps st ! i)"
  using assms
  by (auto simp: resume_steps_def Let_def nth_update_where split: option.splits prod.splits)

lemma current_story_only_cleared:
  assumes "i < length (steps st)"
  shows "s_current_story_id (steps (snd (remediate e now f st)) ! i) = None
     \<or> s_current_story_id (steps (snd (remediate e now f st)) ! i) = s_current_story_id (steps st ! i)"
proof (cases "action f")
  case Reset_step
  then show ?thesis using assms
    by (auto simp: remediate_def remediate_reset_step_def Let_def emitEvent_def nth_update_where
        split: option.splits)
next
  case Fail_run
  then show ?thesis using assms
    by (auto simp: remediate_def remediate_fail_run_def Let_def emitEvent_def nth_update_where
        split: option.splits)
next
  case Resume_run
  then show ?thesis using resume_steps_current[OF assms]
    by (auto simp: remediate_def remediate_resume_run_def Let_def emitEvent_def
        split: option.splits)
next
  case Reset_story
  then show ?thesis using assms
    by (auto simp: remediate_def remediate_reset_story_def Let_def emitEvent_def nth_update_where
        clear_current_story_def split: option.splits prod.splits)
qed (simp_all add: remediate_def)

lemma fold_current_story:
  assumes "same_keys st0 st" "i < length (steps st0)"
  shows "s_current_story_id (steps (foldl (apply_finding e now) st fs) ! i) = None
     \<or> s_current_story_id (steps (foldl (apply_finding e now) st fs) ! i) =
         s_current_story_id (steps st ! i)"
  using assms(1)
proof (induction fs arbitrary: st)
  case Nil
  then show ?case by simp
next
  case (Cons f fs)
  have sk: "same_keys st0 (apply_finding e now st f)"
    using same_keys_trans[OF Cons.prems(1) same_keys_apply] .
  have len: "i < length (steps st)" using same_keys_steps(1)[OF Cons.prems(1)] assms(2) by simp
  have one: "s_current_story_id (steps (apply_finding e now st f) ! i) = None
     \<or> s_current_story_id (steps (apply_finding e now st f) ! i) = s_current_story_id (steps st ! i)"
    using current_story_only_cleared[OF len, of e now f] by (simp add: apply_finding_def)
  show ?case using Cons.IH[OF sk] one by auto
qed

lemma loop_clears_current_story:
  assumes dt: "distinct (map st_id (stories st))" and dr: "distinct (map r_id (runs st))"
    and j: "j < length (stories st)" and k: "k < length (runs st)"
    and rk: "r_id (runs st ! k) = st_run_id (stories st ! j)"
    and run: "st_status (stories st ! j) = Story_running" "r_status (runs st ! k) = Run_running"
    and age: "now - st_updated_at (stories st ! j) > STORY_STUCK_THRESHOLD_MS"
    and ne: "st_id (stories st ! j) \<noteq> []"
    and pr: "merged_pr_of e st (st_id (stories st ! j)) (stories st ! j) = Some p"
    and i: "i < length (steps st)" "s_type (steps st ! i) = Loop"
      "s_run_id (steps st ! i) = st_run_id (stories st ! j)"
  shows "s_current_story_id (steps (foldl (apply_finding e now) st (gather_findings e now st)) ! i)
         \<noteq> Some (st_id (stories st ! j))"
proof -
  let ?t = "stories st ! j" and ?r = "runs st ! k"
  let ?H = "\<lambda>f. action f = Reset_story \<and> storyId f = Some (st_id ?t)"
  let ?f0 = "orphaned_story_finding now (?t, ?r)"
  obtain A B where split: "gather_findings e now st = A @ ?f0 # B"
    and A: "\<forall>a \<in> set A. \<not> ?H a"
    using filter_single_split[OF orphaned_story_found_once[OF dt dr j k rk run age]] by metis
  have NA: "\<forall>f \<in> set A. action f = Reset_story \<longrightarrow> storyId f \<noteq> Some (st_id ?t)"
    using A by auto
  define stA where "stA = foldl (apply_finding e now) st A"
  define stF where "stF = apply_finding e now stA ?f0"
  have fin: "foldl (apply_finding e now) st (gather_findings e now st) =
      foldl (apply_finding e now) stF B"
    by (simp add: split stA_def stF_def)
  have skA: "same_keys st stA" unfolding stA_def by (rule same_keys_fold) simp
  have skF: "same_keys st stF"
    unfolding stF_def using same_keys_trans[OF skA same_keys_apply] .
  have nf: "st_status ?t \<noteq> Story_failed" using run(1) by simp
  have rowA: "stories stA ! j = ?t"
    unfolding stA_def using fold_story_frame[OF same_keys_refl dt j nf NA] .
  have lenA: "j < length (stories stA)" using same_keys_stories(1)[OF skA] j by simp
  have dA: "distinct (map st_id (stories stA))" using same_keys_stories(2)[OF skA] dt by simp
  have prA: "merged_pr_of e stA (st_id (stories stA ! j)) (stories stA ! j) = Some p"
    using merged_pr_of_same_keys[OF skA, of ?t ?t e "st_id ?t"] pr rowA by simp
  have f0: "storyId ?f0 = Some (st_id (stories stA ! j))" "st_id (stories stA ! j) \<noteq> []"
    "st_status (stories stA ! j) = Story_running"
    using rowA ne run(1) by simp_all
  have stF_eq: "stF = snd (remediate_reset_story e now ?f0 stA)"
    by (simp add: stF_def apply_finding_def remediate_def)
  have stepsF: "steps stF = clear_current_story now (st_run_id ?t) (st_id ?t) (steps stA)"
    unfolding stF_eq using reset_story_verified_steps[OF lenA dA f0 prA, of now] rowA by simp
  have iA: "i < length (steps stA)" using same_keys_steps(1)[OF skA] i(1) by simp
  have "s_current_story_id (steps stF ! i) \<noteq> Some (st_id ?t)"
    unfolding stepsF using iA same_keys_steps(4)[OF skA i(1)] same_keys_types[OF skA i(1)] i(2,3)
    by (simp add: clear_current_story_def nth_update_where)
  then show ?thesis
    unfolding fin using fold_current_story[OF skF i(1), of e now B] by auto
qed

lemma merged_pr_found:
  assumes "distinct (map st_id (stories st))" and "distinct (map r_id (runs st))"
    and "j < length (stories st)" and "k < length (runs st)"
    and "r_id (runs st ! k) = st_run_id (stories st ! j)"
    and "extractRepoUrl (r_task (runs st ! k)) = Some repoUrl"
    and "gh_pr_list e (replace_first ''https://github.com/'' [] repoUrl) = Some prs"
    and "find (branch_matches (st_story_id (stories st ! j))
                 (slice0 8 (st_run_id (stories st ! j)))) prs = Some pr"
    and "pr_url pr \<noteq> []"
  shows "merged_pr_of e st (st_id (stories st ! j)) (stories st ! j) =
         Some (pr_url pr, st_story_id (stories st ! j))"
proof -
  have a: "find (\<lambda>t. st_id t = st_id (stories st ! j)) (stories st) = Some (stories st ! j)"
    using find_nth_by_key[OF assms(1,3)] .
  have b: "find (\<lambda>r. r_id r = st_run_id (stories st ! j)) (runs st) = Some (runs st ! k)"
    using find_nth_by_key[OF assms(2,4)] assms(5) by simp
  show ?thesis
    unfolding merged_pr_of_def a b using assms(6-9) by (simp add: checkMergedPR_def)
qed

text \<open>
  Claim C10. Take a story that is \<open>running\<close> in a run that is \<open>running\<close>, last updated
  more than 30 minutes ago, in a store whose story ids and run ids are distinct and not
  empty. Let the run's task name a GitHub repository, and let the list of merged pull
  requests of that repository hold one whose branch matches the story's name or the
  first eight characters of the run id, with a non-empty address. After a medic pass
  the story is \<open>verified\<close>, its \<open>abandoned_count\<close> is 0, its output names the pull
  request, and no loop step of its run that pointed at it still does.
\<close>

theorem merged_pr_guard_verifies_story:
  assumes "distinct (map st_id (stories st))" and "distinct (map r_id (runs st))"
    and "j < length (stories st)" and "k < length (runs st)"
    and "r_id (runs st ! k) = st_run_id (stories st ! j)"
    and "st_status (stories st ! j) = Story_running" and "r_status (runs st ! k) = Run_running"
    and "now - st_updated_at (stories st ! j) > 30 * 60 * 1000"
    and "st_id (stories st ! j) \<noteq> []"
    and "extractRepoUrl (r_task (runs st ! k)) = Some repoUrl"
    and "gh_pr_list e (replace_first ''https://github.com/'' [] repoUrl) = Some prs"
    and "find (branch_matches (st_story_id (stories st ! j))
                 (slice0 8 (st_run_id (stories st ! j)))) prs = Some pr"
    and "pr_url pr \<noteq> []"
  shows "st_status (stories (snd (runMedicCheck e now st)) ! j) = Story_verified
    \<and> st_abandoned_count (stories (snd (runMedicCheck e now st)) ! j) = Some 0
    \<and> st_output (stories (snd (runMedicCheck e now st)) ! j) =
        Some (''STATUS: done'' @ [CHR 0x0A] @ ''PR_URL: '' @ pr_url pr @ [CHR 0x0A]
              @ ''CHANGES: Auto-verified by Medic v6 -- merged PR detected on GitHub'')
    \<and> (\<forall>i < length (steps st).
          s_type (steps st ! i) = Loop \<and> s_run_id (steps st ! i) = st_run_id (stories st ! j)
          \<and> s_current_story_id (steps st ! i) = Some (st_id (stories st ! j))
          \<longrightarrow> s_current_story_id (steps (snd (runMedicCheck e now st)) ! i) = None)"
proof -
  define st1 where "st1 = snd (restoreActiveRunCrons e st)"
  define fin where "fin = foldl (apply_finding e now) st1 (gather_findings e now st1)"
  have t: "stories st1 = stories st" "runs st1 = runs st" "steps st1 = steps st"
    by (simp_all add: st1_def)
  have f: "steps (snd (runMedicCheck e now st)) = steps fin"
    by (simp add: runMedicCheck_tables fin_def st1_def)
  have pr: "merged_pr_of e st (st_id (stories st ! j)) (stories st ! j) =
      Some (pr_url pr, st_story_id (stories st ! j))"
    using merged_pr_found[OF assms(1-5,10-13)] .
  then have pr1: "merged_pr_of e st1 (st_id (stories st1 ! j)) (stories st1 ! j) =
      Some (pr_url pr, st_story_id (stories st ! j))"
    by (simp add: merged_pr_of_def t)
  have row: "stories (snd (runMedicCheck e now st)) ! j = story_after e now st (stories st ! j)"
    using pass_story_after[OF assms(1-9)] .
  have cleared: "s_current_story_id (steps fin ! i) = None"
    if i: "i < length (steps st)" "s_type (steps st ! i) = Loop"
      "s_run_id (steps st ! i) = st_run_id (stories st ! j)"
      "s_current_story_id (steps st ! i) = Some (st_id (stories st ! j))" for i
  proof -
    have "s_current_story_id (steps fin ! i) \<noteq> Some (st_id (stories st1 ! j))"
      unfolding fin_def
      using assms(1-9) t i(1-3) pr1
      by (intro loop_clears_current_story[where k = k])
        (simp_all add: STORY_STUCK_THRESHOLD_MS_def)
    moreover have "s_current_story_id (steps fin ! i) = None
      \<or> s_current_story_id (steps fin ! i) = s_current_story_id (steps st1 ! i)"
      unfolding fin_def using fold_current_story[OF same_keys_refl, of i st1 e now] i(1) t
      by simp
    ultimately show ?thesis using i(4) t by auto
  qed
  show ?thesis
    unfolding f using row pr cleared by (simp add: story_after_def)
qed

theorem merged_pr_guard_verifies_story_witness:
  "distinct (map st_id (stories db_pr)) \<and> distinct (map r_id (runs db_pr))
   \<and> r_id (runs db_pr ! 0) = st_run_id (stories db_pr ! 0)
   \<and> st_status (stories db_pr ! 0) = Story_running \<and> r_status (runs db_pr ! 0) = Run_running
   \<and> now0 - st_updated_at (stories db_pr ! 0) > 30 * 60 * 1000
   \<and> extractRepoUrl (r_task (runs db_pr ! 0)) = Some ''https://github.com/acme/app''
   \<and> gh_pr_list e_pr ''acme/app'' = Some [pr7]
   \<and> branch_matches (st_story_id (stories db_pr ! 0)) (slice0 8 (st_run_id (stories db_pr ! 0))) pr7
   \<and> s_current_story_id (steps db_pr ! 0) = Some ''story-1''
   \<and> st_status (stories (snd (runMedicCheck e_pr now0 db_pr)) ! 0) = Story_verified
   \<and> st_abandoned_count (stories (snd (runMedicCheck e_pr now0 db_pr)) ! 0) = Some 0
   \<and> s_current_story_id (steps (snd (runMedicCheck e_pr now0 db_pr)) ! 0) = None"
proof -
  have bm: "branch_matches (st_story_id story_running) (slice0 8 (st_run_id story_running)) pr7"
    by (simp add: pr7_def branch_matches_def startsWith_def
        storyLower_def toLowerCase_def toLowerCase_char_def story_running_def story0_def
        slice0_def Let_def)
  have gh: "gh_pr_list e_pr (replace_first ''https://github.com/'' [] ''https://github.com/acme/app'')
      = Some [pr7]"
    by (simp add: e_pr_def e0_def startsWith_def)
  have st: "steps db_pr = [loop_step]" "s_type loop_step = Loop" "s_run_id loop_step = ''run-1''"
    "s_current_story_id loop_step = Some ''story-1''" "st_run_id story_running = ''run-1''"
    by (simp_all add: db_pr_def db_stuck_def loop_step_def step0_def story_running_def story0_def)
  show ?thesis
    using merged_pr_guard_verifies_story[where st = db_pr and j = 0 and k = 0 and now = now0
        and e = e_pr and repoUrl = "''https://github.com/acme/app''" and prs = "[pr7]"
        and pr = pr7]
      db_pr_rows extract_run_repo bm gh st
    by (simp add: pr7_def e_pr_def e0_def)
qed

section \<open>Claims about the counters\<close>

text \<open>The counters of abandoned attempts under one remediation.\<close>

lemma resume_steps_abandoned:
  assumes "i < length (steps st)"
  shows "s_abandoned_count (steps (resume_steps now st rid x) ! i) = s_abandoned_count (steps st ! i)"
  using assms
  by (auto simp: resume_steps_def Let_def nth_update_where split: option.splits prod.splits)

lemma resume_steps_story_abandoned:
  assumes "j < length (stories st)"
  shows "st_abandoned_count (stories (resume_steps now st rid x) ! j) =
         st_abandoned_count (stories st ! j)"
  using assms
  by (auto simp: resume_steps_def Let_def nth_update_where split: option.splits prod.splits)

lemma step_count_frame:
  assumes "i < length (steps st)"
    and "\<not> (action f = Reset_step \<and> stepId f = Some (s_id (steps st ! i)))"
  shows "s_abandoned_count (steps (snd (remediate e now f st)) ! i) =
         s_abandoned_count (steps st ! i)"
proof (cases "action f")
  case Reset_step
  then show ?thesis using step_frame_reset_step[OF assms(1), of f now] assms(2)
    by (simp add: remediate_def)
next
  case Fail_run
  then show ?thesis using assms(1)
    by (auto simp: remediate_def remediate_fail_run_def Let_def emitEvent_def nth_update_where
        split: option.splits)
next
  case Resume_run
  then show ?thesis using resume_steps_abandoned[OF assms(1)]
    by (auto simp: remediate_def remediate_resume_run_def Let_def emitEvent_def
        split: option.splits)
next
  case Reset_story
  then show ?thesis using step_core_fields(4)[OF step_frame_reset_story[OF assms(1)]]
    by (simp add: remediate_def)
qed (simp_all add: remediate_def)

lemma step_count_hit:
  assumes "i < length (steps st)" "distinct (map s_id (steps st))"
    and "action f = Reset_step" "stepId f = Some (s_id (steps st ! i))"
  shows "count_or_zero (s_abandoned_count (steps (snd (remediate e now f st)) ! i)) =
           count_or_zero (s_abandoned_count (steps st ! i))
     \<or> count_or_zero (s_abandoned_count (steps (snd (remediate e now f st)) ! i)) =
           count_or_zero (s_abandoned_count (steps st ! i)) + 1"
proof (cases "s_id (steps st ! i) = []")
  case True
  then show ?thesis using assms(3,4) by (simp add: remediate_def remediate_reset_step_def)
next
  case False
  then show ?thesis
    using reset_step_effect[OF assms(1,2,4) False, of now] assms(3)
    by (simp add: remediate_def count_or_zero_def)
qed

lemma story_count_frame:
  assumes "j < length (stories st)"
    and "\<not> (action f = Reset_story \<and> storyId f = Some (st_id (stories st ! j)))"
  shows "st_abandoned_count (stories (snd (remediate e now f st)) ! j) =
         st_abandoned_count (stories st ! j)"
proof (cases "action f")
  case Reset_step
  then show ?thesis
    by (simp add: remediate_def remediate_reset_step_def Let_def emitEvent_def
        split: option.splits)
next
  case Fail_run
  then show ?thesis
    by (simp add: remediate_def remediate_fail_run_def Let_def emitEvent_def
        split: option.splits)
next
  case Resume_run
  then show ?thesis using resume_steps_story_abandoned[OF assms(1)]
    by (auto simp: remediate_def remediate_resume_run_def Let_def emitEvent_def
        split: option.splits)
next
  case Reset_story
  then show ?thesis using assms
    by (auto simp: remediate_def remediate_reset_story_def Let_def emitEvent_def nth_update_where
        split: option.splits prod.splits)
qed (simp_all add: remediate_def)

lemma reset_story_not_running:
  assumes "j < length (stories st)" "distinct (map st_id (stories st))"
    and "storyId f = Some (st_id (stories st ! j))"
    and "st_status (stories st ! j) \<noteq> Story_running"
  shows "snd (remediate_reset_story e now f st) = st"
proof -
  have "find (\<lambda>t. st_id t = st_id (stories st ! j) \<and> st_status t = Story_running) (stories st) = None"
  proof (rule ccontr)
    assume "find (\<lambda>t. st_id t = st_id (stories st ! j) \<and> st_status t = Story_running)
        (stories st) \<noteq> None"
    then obtain x where x: "find (\<lambda>t. st_id t = st_id (stories st ! j)
        \<and> st_status t = Story_running) (stories st) = Some x" by auto
    then have "x \<in> set (stories st)" "st_id x = st_id (stories st ! j)" "st_status x = Story_running"
      using find_in_set[OF x] by auto
    then have "x = stories st ! j"
      using distinct_key_eq[OF assms(2), of x "stories st ! j"] assms(1) by simp
    then show False using assms(4) \<open>st_status x = Story_running\<close> by simp
  qed
  then show ?thesis using assms(3) by (simp add: remediate_reset_story_def)
qed

lemma story_count_hit:
  assumes "j < length (stories st)" "distinct (map st_id (stories st))"
    and "action f = Reset_story" "storyId f = Some (st_id (stories st ! j))"
  shows "count_or_zero (st_abandoned_count (stories (snd (remediate e now f st)) ! j)) =
           count_or_zero (st_abandoned_count (stories st ! j))
     \<or> count_or_zero (st_abandoned_count (stories (snd (remediate e now f st)) ! j)) =
           count_or_zero (st_abandoned_count (stories st ! j)) + 1
     \<or> (st_status (stories st ! j) = Story_running
        \<and> merged_pr_of e st (st_id (stories st ! j)) (stories st ! j) \<noteq> None
        \<and> st_status (stories (snd (remediate e now f st)) ! j) = Story_verified
        \<and> st_abandoned_count (stories (snd (remediate e now f st)) ! j) = Some 0)"
proof (cases "st_id (stories st ! j) = [] \<or> st_status (stories st ! j) \<noteq> Story_running")
  case True
  then have "snd (remediate_reset_story e now f st) = st"
    using reset_story_not_running[OF assms(1,2,4)] assms(4)
    by (auto simp: remediate_reset_story_def)
  then show ?thesis using assms(3) by (simp add: remediate_def)
next
  case False
  then have "stories (snd (remediate e now f st)) ! j = story_after e now st (stories st ! j)"
    using reset_story_after[OF assms(1,2,4), of e now] assms(3) by (simp add: remediate_def)
  then show ?thesis using False
    by (auto simp: story_after_def count_or_zero_def split: option.splits)
qed

text \<open>
  Claim C3, amended. In a store whose step ids and story ids are distinct, every
  remediation of the medic leaves the \<open>abandoned_count\<close> of every step as it is or adds
  one to it. The same holds for every story, with one exception: when the pull-request
  guard finds a merged pull request for a \<open>running\<close> story, the story becomes
  \<open>verified\<close> and its \<open>abandoned_count\<close> is set to 0.
\<close>

theorem abandoned_count_reset_only_by_pr_guard:
  assumes "distinct (map s_id (steps st))" and "distinct (map st_id (stories st))"
  shows "(\<forall>i < length (steps st).
            count_or_zero (s_abandoned_count (steps (snd (remediate e now f st)) ! i)) =
              count_or_zero (s_abandoned_count (steps st ! i))
          \<or> count_or_zero (s_abandoned_count (steps (snd (remediate e now f st)) ! i)) =
              count_or_zero (s_abandoned_count (steps st ! i)) + 1)
    \<and> (\<forall>j < length (stories st).
            count_or_zero (st_abandoned_count (stories (snd (remediate e now f st)) ! j)) =
              count_or_zero (st_abandoned_count (stories st ! j))
          \<or> count_or_zero (st_abandoned_count (stories (snd (remediate e now f st)) ! j)) =
              count_or_zero (st_abandoned_count (stories st ! j)) + 1
          \<or> (action f = Reset_story \<and> st_status (stories st ! j) = Story_running
             \<and> merged_pr_of e st (st_id (stories st ! j)) (stories st ! j) \<noteq> None
             \<and> st_status (stories (snd (remediate e now f st)) ! j) = Story_verified
             \<and> st_abandoned_count (stories (snd (remediate e now f st)) ! j) = Some 0))"
proof (intro conjI allI impI)
  fix i assume i: "i < length (steps st)"
  show "count_or_zero (s_abandoned_count (steps (snd (remediate e now f st)) ! i)) =
              count_or_zero (s_abandoned_count (steps st ! i))
          \<or> count_or_zero (s_abandoned_count (steps (snd (remediate e now f st)) ! i)) =
              count_or_zero (s_abandoned_count (steps st ! i)) + 1"
  proof (cases "action f = Reset_step \<and> stepId f = Some (s_id (steps st ! i))")
    case True
    then show ?thesis using step_count_hit[OF i assms(1), of f e now] by simp
  next
    case False
    then show ?thesis using step_count_frame[OF i False, of e now] by simp
  qed
next
  fix j assume j: "j < length (stories st)"
  show "count_or_zero (st_abandoned_count (stories (snd (remediate e now f st)) ! j)) =
              count_or_zero (st_abandoned_count (stories st ! j))
          \<or> count_or_zero (st_abandoned_count (stories (snd (remediate e now f st)) ! j)) =
              count_or_zero (st_abandoned_count (stories st ! j)) + 1
          \<or> (action f = Reset_story \<and> st_status (stories st ! j) = Story_running
             \<and> merged_pr_of e st (st_id (stories st ! j)) (stories st ! j) \<noteq> None
             \<and> st_status (stories (snd (remediate e now f st)) ! j) = Story_verified
             \<and> st_abandoned_count (stories (snd (remediate e now f st)) ! j) = Some 0)"
  proof (cases "action f = Reset_story \<and> storyId f = Some (st_id (stories st ! j))")
    case True
    then show ?thesis using story_count_hit[OF j assms(2), of f e now] by blast
  next
    case False
    then show ?thesis using story_count_frame[OF j False, of e now] by simp
  qed
qed

lemma reset_db_stuck:
  "s_abandoned_count (steps (snd (remediate e0 now0 (stuck_step_finding now0 (step0, run0))
      db_stuck)) ! 0) = Some 1"
  by (simp add: remediate_def remediate_reset_step_def db_stuck_def step0_def run0_def
      update_where_def count_or_zero_def emitEvent_def Let_def)

theorem abandoned_count_reset_only_by_pr_guard_witness:
  "distinct (map s_id (steps db_stuck)) \<and> distinct (map st_id (stories db_stuck))
   \<and> s_abandoned_count (steps db_stuck ! 0) = Some 0
   \<and> count_or_zero (s_abandoned_count
        (steps (snd (remediate e0 now0 (stuck_step_finding now0 (step0, run0)) db_stuck)) ! 0)) =
       count_or_zero (s_abandoned_count (steps db_stuck ! 0)) + 1"
  using abandoned_count_reset_only_by_pr_guard[where st = db_stuck and e = e0 and now = now0
      and f = "stuck_step_finding now0 (step0, run0)"] reset_db_stuck
  by (simp add: db_stuck_def step0_def count_or_zero_def)

theorem abandoned_count_reset_counterexample:
  "action (orphaned_story_finding now0 (story_running, run_repo)) = Reset_story
   \<and> st_abandoned_count (stories db_pr ! 0) = Some 3
   \<and> st_abandoned_count (stories (snd (remediate e_pr now0
        (orphaned_story_finding now0 (story_running, run_repo)) db_pr)) ! 0) = Some 0
   \<and> count_or_zero (st_abandoned_count (stories (snd (remediate e_pr now0
        (orphaned_story_finding now0 (story_running, run_repo)) db_pr)) ! 0))
      < count_or_zero (st_abandoned_count (stories db_pr ! 0))"
proof -
  have "stories (snd (remediate_reset_story e_pr now0
      (orphaned_story_finding now0 (story_running, run_repo)) db_pr)) ! 0 =
     story_after e_pr now0 db_pr (stories db_pr ! 0)"
    using db_pr_rows by (intro reset_story_after) simp_all
  then show ?thesis
    using merged_pr_db_pr db_pr_rows
    by (simp add: remediate_def story_after_def count_or_zero_def)
qed









lemma reset_step_stories [simp]: "stories (snd (remediate_reset_step now f st)) = stories st"
  by (simp add: remediate_reset_step_def Let_def emitEvent_def split: option.splits)


















section \<open>Claims about single findings\<close>

text \<open>The latest of a non-empty list of times is an upper bound of the list.\<close>

lemma foldl_max_ge: "(a::int) \<le> foldl max a ts"
proof (induction ts arbitrary: a)
  case Nil
  then show ?case by simp
next
  case (Cons b ts)
  have "a \<le> max a b" by simp
  also have "max a b \<le> foldl max (max a b) ts" by (rule Cons.IH)
  finally show ?case by simp
qed

lemma foldl_max_upper: "(t::int) \<in> set (a # ts) \<Longrightarrow> t \<le> foldl max a ts"
proof (induction ts arbitrary: a)
  case Nil
  then show ?case by simp
next
  case (Cons b ts)
  have m: "max a b \<le> foldl max (max a b) ts" by (rule foldl_max_ge)
  have "t = a \<or> t = b \<or> t \<in> set ts" using Cons.prems by auto
  then show ?case
  proof (elim disjE)
    assume "t = a"
    then have "t \<le> max a b" by simp
    then have "t \<le> foldl max (max a b) ts" using m by (rule order_trans)
    then show ?thesis by simp
  next
    assume "t = b"
    then have "t \<le> max a b" by simp
    then have "t \<le> foldl max (max a b) ts" using m by (rule order_trans)
    then show ?thesis by simp
  next
    assume "t \<in> set ts"
    then have "t \<in> set (max a b # ts)" by simp
    then have "t \<le> foldl max (max a b) ts" by (rule Cons.IH)
    then show ?thesis by simp
  qed
qed

text \<open>
  Claim C6. A finding of the stalled-run check names a \<open>running\<close> run whose steps were
  last updated more than twice the role timeout plus five minutes ago, and carries the
  action \<open>none\<close>. The remediation of such a finding takes no action and returns the
  store as it was, and the remediation loop of a pass steps over it: the runs, steps,
  stories and cron jobs stay as they are, and the finding stays unremediated.
\<close>

theorem stalled_run_alert_only:
  assumes "f \<in> set (checkStalledRuns e now db)"
  shows "action f = No_action \<and> \<not> remediated f
    \<and> list_ex (\<lambda>r. r_status r = Run_running \<and> runId f = Some (r_id r)
                   \<and> list_ex (\<lambda>s. s_run_id s = r_id r) (steps db)
                   \<and> list_all (\<lambda>s. s_run_id s \<noteq> r_id r
                         \<or> now - s_updated_at s > 2 * ((getMaxRoleTimeoutSeconds e + 5 * 60) * 1000))
                        (steps db))
         (runs db)
    \<and> remediate e now f st = (False, st)
    \<and> remediate_all e now (f # fs) st =
        (case remediate_all e now fs st of (fs', n, st') \<Rightarrow> (f # fs', n, st'))"
proof -
  have a: "action f = No_action \<and> \<not> remediated f"
    using assms
    by (auto simp: checkStalledRuns_def stalled_run_finding_def split: option.splits if_splits)
  have "\<exists>r lastUpd. r \<in> set (runs db) \<and> last_step_update db r = Some lastUpd
      \<and> r_status r = Run_running \<and> now - lastUpd > STALL_THRESHOLD_MS e
      \<and> f = stalled_run_finding now r lastUpd"
  proof -
    obtain x where x: "x \<in> set (runs db)"
      "f \<in> set (case last_step_update db x of None \<Rightarrow> []
          | Some lastUpd \<Rightarrow>
              if r_status x = Run_running \<and> now - lastUpd > STALL_THRESHOLD_MS e
              then [stalled_run_finding now x lastUpd] else [])"
      using assms by (auto simp: checkStalledRuns_def)
    then obtain u where u: "last_step_update db x = Some u"
      by (cases "last_step_update db x") auto
    have "r_status x = Run_running \<and> now - u > STALL_THRESHOLD_MS e
        \<and> f = stalled_run_finding now x u"
      using x(2) u by (simp split: if_splits)
    then show ?thesis using x(1) u by blast
  qed
  then obtain r lastUpd where r: "r \<in> set (runs db)" "last_step_update db r = Some lastUpd"
    "r_status r = Run_running" "now - lastUpd > STALL_THRESHOLD_MS e"
    "f = stalled_run_finding now r lastUpd"
    by blast
  define ts where "ts = map s_updated_at (filter (\<lambda>s. s_run_id s = r_id r) (steps db))"
  obtain t0 ts0 where ts0: "ts = t0 # ts0" "lastUpd = foldl max t0 ts0"
    using r(2) unfolding last_step_update_def ts_def[symmetric]
    by (cases ts) auto
  have upper: "t \<le> lastUpd" if "t \<in> set ts" for t
    using that foldl_max_upper[of t t0 ts0] ts0 by simp
  have "filter (\<lambda>s. s_run_id s = r_id r) (steps db) \<noteq> []"
    using ts0(1) unfolding ts_def by auto
  then obtain s0 where "s0 \<in> set (steps db)" "s_run_id s0 = r_id r"
    unfolding filter_empty_conv by blast
  then have ex: "list_ex (\<lambda>s. s_run_id s = r_id r) (steps db)"
    unfolding list_ex_iff by blast
  have old: "list_all (\<lambda>s. s_run_id s \<noteq> r_id r
        \<or> now - s_updated_at s > 2 * ((getMaxRoleTimeoutSeconds e + 5 * 60) * 1000)) (steps db)"
    unfolding list_all_iff
  proof (intro ballI)
    fix s assume s: "s \<in> set (steps db)"
    show "s_run_id s \<noteq> r_id r
        \<or> now - s_updated_at s > 2 * ((getMaxRoleTimeoutSeconds e + 5 * 60) * 1000)"
    proof (cases "s_run_id s = r_id r")
      case True
      then have "s_updated_at s \<in> set ts" using s unfolding ts_def by auto
      then have "s_updated_at s \<le> lastUpd" by (rule upper)
      then show ?thesis
        using r(4) by (simp add: STALL_THRESHOLD_MS_def MAX_ROLE_TIMEOUT_MS_def)
    next
      case False
      then show ?thesis by simp
    qed
  qed
  have "list_ex (\<lambda>r. r_status r = Run_running \<and> runId f = Some (r_id r)
                   \<and> list_ex (\<lambda>s. s_run_id s = r_id r) (steps db)
                   \<and> list_all (\<lambda>s. s_run_id s \<noteq> r_id r
                         \<or> now - s_updated_at s > 2 * ((getMaxRoleTimeoutSeconds e + 5 * 60) * 1000))
                        (steps db))
         (runs db)"
  proof -
    have "runId f = Some (r_id r)" using r(5) by (simp add: stalled_run_finding_def)
    then have "r_status r = Run_running \<and> runId f = Some (r_id r)
        \<and> list_ex (\<lambda>s. s_run_id s = r_id r) (steps db)
        \<and> list_all (\<lambda>s. s_run_id s \<noteq> r_id r
              \<or> now - s_updated_at s > 2 * ((getMaxRoleTimeoutSeconds e + 5 * 60) * 1000))
             (steps db)"
      using r(3) ex old by blast
    then show ?thesis unfolding list_ex_iff[of _ "runs db"] using r(1) by blast
  qed
  then show ?thesis using a by (simp add: remediate_def)
qed

theorem stalled_run_alert_only_witness:
  "stalled_run_finding now0 run0 0 \<in> set (checkStalledRuns e0 now0 db_stuck)
   \<and> action (stalled_run_finding now0 run0 0) = No_action
   \<and> remediate e0 now0 (stalled_run_finding now0 run0 0) db_stuck = (False, db_stuck)"
proof -
  have m: "stalled_run_finding now0 run0 0 \<in> set (checkStalledRuns e0 now0 db_stuck)"
    by (simp add: checkStalledRuns_def last_step_update_def db_stuck_def run0_def step0_def
        now0_def e0_def STALL_THRESHOLD_MS_def MAX_ROLE_TIMEOUT_MS_def)
  show ?thesis using m stalled_run_alert_only[OF m, of db_stuck "[]"] by simp
qed

section \<open>Claims about the cron jobs\<close>

text \<open>
  Claim C8. Creating the cron jobs of a workflow is idempotent, and their teardown is
  guarded. \<open>ensureWorkflowCrons\<close> leaves the gateway as it is when a job whose name
  starts with the workflow's prefix exists, and sets the jobs up when the gateway is
  reachable and none exists; a second call never changes what the first call left.
  \<open>teardownWorkflowCronsIfIdle\<close> leaves the gateway as it is while a run of the
  workflow is running; with no running run it deletes the workflow's jobs and, the job
  ids being distinct, keeps all the others.
\<close>

theorem workflow_crons_lifecycle:
  "(list_ex (\<lambda>j. startsWith (j_name j) (''setfarm/'' @ w_id w @ ''/'')) (g_jobs gw)
      \<longrightarrow> snd (ensureWorkflowCrons e w gw) = gw)
   \<and> (g_reachable gw
       \<and> \<not> list_ex (\<lambda>j. startsWith (j_name j) (''setfarm/'' @ w_id w @ ''/'')) (g_jobs gw)
      \<longrightarrow> ensureWorkflowCrons e w gw = setupAgentCrons e w gw)
   \<and> snd (ensureWorkflowCrons e w (snd (ensureWorkflowCrons e w gw))) =
       snd (ensureWorkflowCrons e w gw)
   \<and> (0 < countActiveRuns wfId rs \<longrightarrow> teardownWorkflowCronsIfIdle wfId rs gw = gw)
   \<and> (countActiveRuns wfId rs = 0 \<and> g_reachable gw \<and> distinct (map j_id (g_jobs gw))
      \<longrightarrow> g_jobs (teardownWorkflowCronsIfIdle wfId rs gw) =
          filter (\<lambda>j. \<not> startsWith (j_name j) (''setfarm/'' @ wfId @ ''/'')) (g_jobs gw))"
proof -
  have a: "list_ex (\<lambda>j. startsWith (j_name j) (''setfarm/'' @ w_id w @ ''/'')) (g_jobs gw)
      \<longrightarrow> snd (ensureWorkflowCrons e w gw) = gw"
    using ensureWorkflowCrons_existing[of w gw e] by (simp add: cron_prefix_def)
  have b: "g_reachable gw
       \<and> \<not> list_ex (\<lambda>j. startsWith (j_name j) (''setfarm/'' @ w_id w @ ''/'')) (g_jobs gw)
      \<longrightarrow> ensureWorkflowCrons e w gw = setupAgentCrons e w gw"
    using ensureWorkflowCrons_fresh[of gw w e] by (simp add: cron_prefix_def)
  have c: "0 < countActiveRuns wfId rs \<longrightarrow> teardownWorkflowCronsIfIdle wfId rs gw = gw"
    by (simp add: teardownWorkflowCronsIfIdle_def)
  have d: "countActiveRuns wfId rs = 0 \<and> g_reachable gw \<and> distinct (map j_id (g_jobs gw))
      \<longrightarrow> g_jobs (teardownWorkflowCronsIfIdle wfId rs gw) =
          filter (\<lambda>j. \<not> startsWith (j_name j) (''setfarm/'' @ wfId @ ''/'')) (g_jobs gw)"
    using teardown_idle[of wfId rs gw]
      filter_by_distinct_key[of j_id "g_jobs gw" "\<lambda>j. startsWith (j_name j) (cron_prefix wfId)"]
    by (simp add: cron_prefix_def)
  show ?thesis using a b ensureWorkflowCrons_twice c d by blast
qed

theorem workflow_crons_lifecycle_witness:
  "list_ex (\<lambda>j. startsWith (j_name j) (''setfarm/'' @ w_id w0 @ ''/'')) (g_jobs gw1)
   \<and> snd (ensureWorkflowCrons e0 w0 gw1) = gw1
   \<and> g_reachable gw0
   \<and> \<not> list_ex (\<lambda>j. startsWith (j_name j) (''setfarm/'' @ w_id w0 @ ''/'')) (g_jobs gw0)
   \<and> ensureWorkflowCrons e0 w0 gw0 = setupAgentCrons e0 w0 gw0
   \<and> 0 < countActiveRuns ''wf'' [run0]
   \<and> teardownWorkflowCronsIfIdle ''wf'' [run0] gw1 = gw1
   \<and> countActiveRuns ''wf'' [] = 0 \<and> g_reachable gw1 \<and> distinct (map j_id (g_jobs gw1))
   \<and> map j_name (g_jobs (teardownWorkflowCronsIfIdle ''wf'' [] gw1)) = [''setfarm/other/planner'']"
  using workflow_crons_lifecycle[of w0 gw1 e0 "''wf''" "[run0]"]
    workflow_crons_lifecycle[of w0 gw0 e0 "''wf''" "[]"]
    workflow_crons_lifecycle[of w0 gw1 e0 "''wf''" "[]"]
  by (simp add: gw0_def gw1_def w0_def run0_def countActiveRuns_def startsWith_def)

text \<open>
  Claim C9. On a reachable gateway \<open>setupAgentCrons\<close> succeeds and adds, for the role
  at position \<open>i\<close> of the workflow, the job \<open>setfarm/<workflow_id>/<role>\<close> anchored
  at \<open>i\<close> times 40 seconds and, for the roles developer and verifier, the shards
  \<open>-2\<close> and \<open>-3\<close> anchored 2 and 3 times 40 seconds later: three jobs for a parallel
  role. Every job runs at the workflow's own interval, five minutes when it gives none.
\<close>

theorem setupAgentCrons_schedule:
  assumes "g_reachable gw"
  shows "fst (setupAgentCrons e w gw) = Inr ()
    \<and> map job_plan (g_jobs (snd (setupAgentCrons e w gw))) =
        map job_plan (g_jobs gw) @ concat (map (role_plan w) (enumerate 0 (w_agents w)))"
  using setupAgentCrons_from_reachable[OF assms, of e w 0 "w_agents w"]
  by (simp add: setupAgentCrons_def)

theorem setupAgentCrons_schedule_witness:
  "g_reachable gw0
   \<and> fst (setupAgentCrons e0 w0 gw0) = Inr ()
   \<and> map job_plan (g_jobs (snd (setupAgentCrons e0 w0 gw0))) =
       [(''setfarm/wf/planner'', 300000, 0),
        (''setfarm/wf/developer'', 300000, 40000),
        (''setfarm/wf/developer-2'', 300000, 120000),
        (''setfarm/wf/developer-3'', 300000, 160000)]"
  using setupAgentCrons_schedule[of gw0 e0 w0]
  by (simp add: gw0_def w0_def role_plan_def spec_interval_def enumerate_eq_zip upt_rec)

end
